theory Spec2Isabelle
  imports Main "HOL-Library.Multiset"
begin

section \<open>Constants and piece catalogue (tetris.py, lines 26-111)\<close>

definition BOARD_WIDTH :: int where
  "BOARD_WIDTH = 10"

definition BOARD_HEIGHT :: int where
  "BOARD_HEIGHT = 20"

definition FALL_SPEED :: int where
  "FALL_SPEED = 500"

text \<open>
  The keys of the \<^verbatim>\<open>TETROMINOES\<close> dictionary are the seven strings
  \<^verbatim>\<open>'I', 'O', 'T', 'S', 'Z', 'J', 'L'\<close>; pieces are only ever constructed from
  these keys, so the key set is a datatype.
\<close>

datatype tetromino = Tet_I | Tet_O | Tet_T | Tet_S | Tet_Z | Tet_J | Tet_L

text \<open>Python exceptions that the modelled code can raise.\<close>

datatype error = IndexError | AttributeError | SystemExit

type_synonym cells = "(int \<times> int) list"

fun TETROMINOES :: "tetromino \<Rightarrow> cells list" where
  "TETROMINOES Tet_I =
     [[(0, 0), (0, 1), (0, 2), (0, 3)],
      [(0, 2), (1, 2), (2, 2), (3, 2)],
      [(2, 0), (2, 1), (2, 2), (2, 3)],
      [(0, 1), (1, 1), (2, 1), (3, 1)]]"
| "TETROMINOES Tet_O =
     [[(0, 0), (0, 1), (1, 0), (1, 1)],
      [(0, 0), (0, 1), (1, 0), (1, 1)],
      [(0, 0), (0, 1), (1, 0), (1, 1)],
      [(0, 0), (0, 1), (1, 0), (1, 1)]]"
| "TETROMINOES Tet_T =
     [[(0, 1), (1, 0), (1, 1), (1, 2)],
      [(0, 1), (1, 1), (1, 2), (2, 1)],
      [(1, 0), (1, 1), (1, 2), (2, 1)],
      [(0, 1), (1, 0), (1, 1), (2, 1)]]"
| "TETROMINOES Tet_S =
     [[(0, 1), (0, 2), (1, 0), (1, 1)],
      [(0, 1), (1, 1), (1, 2), (2, 2)],
      [(1, 1), (1, 2), (2, 0), (2, 1)],
      [(0, 0), (1, 0), (1, 1), (2, 1)]]"
| "TETROMINOES Tet_Z =
     [[(0, 0), (0, 1), (1, 1), (1, 2)],
      [(0, 2), (1, 1), (1, 2), (2, 1)],
      [(1, 0), (1, 1), (2, 1), (2, 2)],
      [(0, 1), (1, 0), (1, 1), (2, 0)]]"
| "TETROMINOES Tet_J =
     [[(0, 0), (1, 0), (1, 1), (1, 2)],
      [(0, 1), (0, 2), (1, 1), (2, 1)],
      [(1, 0), (1, 1), (1, 2), (2, 2)],
      [(0, 1), (1, 1), (2, 0), (2, 1)]]"
| "TETROMINOES Tet_L =
     [[(0, 2), (1, 0), (1, 1), (1, 2)],
      [(0, 1), (1, 1), (2, 1), (2, 2)],
      [(1, 0), (1, 1), (1, 2), (2, 0)],
      [(0, 0), (0, 1), (1, 1), (2, 1)]]"

text \<open>\<^verbatim>\<open>list(TETROMINOES.keys())\<close>: the keys in insertion order.\<close>

definition TETROMINOES_keys :: "tetromino list" where
  "TETROMINOES_keys = [Tet_I, Tet_O, Tet_T, Tet_S, Tet_Z, Tet_J, Tet_L]"

section \<open>Python list primitives\<close>

text \<open>
  Indexing a list of length \<open>n\<close> with \<open>i\<close>: the indices \<open>0 .. n - 1\<close> are
  themselves, \<open>- n .. - 1\<close> count from the end, anything else is out of range.
\<close>

definition py_index :: "nat \<Rightarrow> int \<Rightarrow> nat option" where
  "py_index n i =
     (if 0 \<le> i \<and> i < int n then Some (nat i)
      else if - int n \<le> i \<and> i < 0 then Some (nat (int n + i))
      else None)"

text \<open>\<^verbatim>\<open>xs[i]\<close> raises \<^verbatim>\<open>IndexError\<close> out of range.\<close>

definition py_get :: "'a list \<Rightarrow> int \<Rightarrow> error + 'a" where
  "py_get xs i =
     (case py_index (length xs) i of None \<Rightarrow> Inl IndexError | Some k \<Rightarrow> Inr (xs ! k))"

text \<open>\<^verbatim>\<open>xs[i] = v\<close>, with the same index rule.\<close>

definition py_set :: "'a list \<Rightarrow> int \<Rightarrow> 'a \<Rightarrow> error + 'a list" where
  "py_set xs i v =
     (case py_index (length xs) i of None \<Rightarrow> Inl IndexError | Some k \<Rightarrow> Inr (xs[k := v]))"

text \<open>\<^verbatim>\<open>xs.pop()\<close>: removes and returns the last element.\<close>

definition pop :: "'a list \<Rightarrow> error + ('a \<times> 'a list)" where
  "pop xs = (if xs = [] then Inl IndexError else Inr (last xs, butlast xs))"

section \<open>Piece (tetris.py, lines 118-152)\<close>

text \<open>
  The fields \<^verbatim>\<open>rotations\<close> and \<^verbatim>\<open>color\<close> are looked up from the type in the
  constructor and never assigned again; \<^verbatim>\<open>image\<close> is only drawn.
\<close>

record piece =
  piece_type :: tetromino
  rotation_index :: int
  row :: int
  col :: int

definition rotations :: "piece \<Rightarrow> cells list" where
  "rotations p = TETROMINOES (piece_type p)"

definition Piece :: "tetromino \<Rightarrow> piece" where
  "Piece t = \<lparr>piece_type = t, rotation_index = 0, row = 0, col = BOARD_WIDTH div 2 - 2\<rparr>"

definition get_cells_at :: "piece \<Rightarrow> int \<Rightarrow> int \<Rightarrow> int \<Rightarrow> error + cells" where
  "get_cells_at p r c rotation =
     (case py_get (rotations p) rotation of
        Inl e \<Rightarrow> Inl e
      | Inr offs \<Rightarrow> Inr (map (\<lambda>(dr, dc). (r + dr, c + dc)) offs))"

definition get_cells :: "piece \<Rightarrow> error + cells" where
  "get_cells p =
     (case py_get (rotations p) (rotation_index p) of
        Inl e \<Rightarrow> Inl e
      | Inr offs \<Rightarrow> Inr (map (\<lambda>(dr, dc). (row p + dr, col p + dc)) offs))"

definition rotate_cw :: "piece \<Rightarrow> int" where
  "rotate_cw p = (rotation_index p + 1) mod 4"

definition rotate_ccw :: "piece \<Rightarrow> int" where
  "rotate_ccw p = (rotation_index p - 1) mod 4"

section \<open>Board (tetris.py, lines 159-207)\<close>

type_synonym cell = "tetromino option"

text \<open>The board's only field: \<^verbatim>\<open>grid[row][col]\<close>, row 0 at the top.\<close>

type_synonym grid = "cell list list"

definition empty_row :: "cell list" where
  "empty_row = replicate (nat BOARD_WIDTH) None"

definition Board_init :: grid where
  "Board_init = replicate (nat BOARD_HEIGHT) empty_row"

fun is_valid_position :: "grid \<Rightarrow> cells \<Rightarrow> error + bool" where
  "is_valid_position g [] = Inr True"
| "is_valid_position g ((r, c) # rest) =
     (if c < 0 \<or> c \<ge> BOARD_WIDTH then Inr False
      else if r \<ge> BOARD_HEIGHT then Inr False
      else if r \<ge> 0 then
        (case py_get g r of
           Inl e \<Rightarrow> Inl e
         | Inr line \<Rightarrow>
             (case py_get line c of
                Inl e \<Rightarrow> Inl e
              | Inr x \<Rightarrow> if x \<noteq> None then Inr False else is_valid_position g rest))
      else is_valid_position g rest)"

text \<open>The loop of \<^verbatim>\<open>Board.lock_piece\<close> over the piece's cells.\<close>

fun lock_cells :: "grid \<Rightarrow> tetromino \<Rightarrow> cells \<Rightarrow> error + grid" where
  "lock_cells g t [] = Inr g"
| "lock_cells g t ((r, c) # rest) =
     (if 0 \<le> r \<and> r < BOARD_HEIGHT \<and> 0 \<le> c \<and> c < BOARD_WIDTH then
        (case py_get g r of
           Inl e \<Rightarrow> Inl e
         | Inr line \<Rightarrow>
             (case py_set line c (Some t) of
                Inl e \<Rightarrow> Inl e
              | Inr line' \<Rightarrow> lock_cells (g[nat r := line']) t rest))
      else lock_cells g t rest)"

definition Board_lock_piece :: "grid \<Rightarrow> piece \<Rightarrow> error + grid" where
  "Board_lock_piece g p =
     (case get_cells p of
        Inl e \<Rightarrow> Inl e
      | Inr cs \<Rightarrow> lock_cells g (piece_type p) cs)"

text \<open>\<^verbatim>\<open>all(cell is not None for cell in line)\<close>\<close>

definition complete :: "cell list \<Rightarrow> bool" where
  "complete line = list_all (\<lambda>x. x \<noteq> None) line"

text \<open>\<^verbatim>\<open>del xs[i]\<close> for an index already read successfully.\<close>

definition del_row :: "'a list \<Rightarrow> nat \<Rightarrow> 'a list" where
  "del_row xs i = take i xs @ drop (Suc i) xs"

lemma complete_count_del_row:
  assumes "i < length g" and "complete (g ! i)"
  shows "length (filter complete (del_row g i)) < length (filter complete g)"
proof -
  have "g = take i g @ g ! i # drop (Suc i) g"
    using assms(1) by (rule id_take_nth_drop)
  then have "filter complete g =
      filter complete (take i g) @ g ! i # filter complete (drop (Suc i) g)"
    using assms(2) by (metis filter.simps(2) filter_append)
  then show ?thesis
    by (simp add: del_row_def)
qed

lemma empty_row_not_complete: "\<not> complete empty_row"
  by (simp add: complete_def empty_row_def BOARD_WIDTH_def list_all_iff)

text \<open>
  The \<^verbatim>\<open>while row >= 0\<close> loop of \<^verbatim>\<open>clear_lines\<close>; the state is the grid, the row
  index and the counter.
\<close>

function clear_lines_loop :: "grid \<Rightarrow> int \<Rightarrow> int \<Rightarrow> error + (grid \<times> int)" where
  "clear_lines_loop g r lines_cleared =
     (if r \<ge> 0 then
        (case py_get g r of
           Inl e \<Rightarrow> Inl e
         | Inr line \<Rightarrow>
             if complete line
             then clear_lines_loop (empty_row # del_row g (nat r)) r (lines_cleared + 1)
             else clear_lines_loop g (r - 1) lines_cleared)
      else Inr (g, lines_cleared))"
  by pat_completeness auto
termination
proof (relation "measure (\<lambda>(g, r, n). length (filter complete g) + nat (r + 1))")
  show "wf (measure (\<lambda>(g, r, n). length (filter complete g) + nat (r + 1)))"
    by simp
next
  fix g :: grid and r lines_cleared :: int and line
  assume r: "0 \<le> r" and get: "py_get g r = Inr line" and c: "complete line"
  from r get have lt: "nat r < length g" and line: "line = g ! nat r"
    by (auto simp: py_get_def py_index_def split: if_splits)
  from complete_count_del_row [OF lt] c line
  have "length (filter complete (del_row g (nat r))) < length (filter complete g)"
    by simp
  then show "((empty_row # del_row g (nat r), r, lines_cleared + 1), (g, r, lines_cleared))
      \<in> measure (\<lambda>(g, r, n). length (filter complete g) + nat (r + 1))"
    by (simp add: empty_row_not_complete)
next
  fix g :: grid and r lines_cleared :: int and line
  assume "0 \<le> r"
  then show "((g, r - 1, lines_cleared), (g, r, lines_cleared))
      \<in> measure (\<lambda>(g, r, n). length (filter complete g) + nat (r + 1))"
    by simp
qed

declare clear_lines_loop.simps [simp del]

definition clear_lines :: "grid \<Rightarrow> error + (grid \<times> int)" where
  "clear_lines g = clear_lines_loop g (BOARD_HEIGHT - 1) 0"

section \<open>Randomness and the clock\<close>

text \<open>
  The random module is an explicit supply of draws, threaded through the game state:
  \<^verbatim>\<open>randbelow(n)\<close> takes the next draw, reduced into \<^verbatim>\<open>range(n)\<close> (an exhausted
  supply keeps answering 0). \<^verbatim>\<open>random.shuffle(x)\<close> is the standard library's loop
  \<^verbatim>\<open>for i in reversed(range(1, len(x))): j = randbelow(i + 1); x[i], x[j] = x[j], x[i]\<close>.
  The clock \<^verbatim>\<open>pygame.time.get_ticks()\<close> is the argument \<open>now\<close> of each operation
  that reads it.
\<close>

definition randbelow :: "nat \<Rightarrow> nat list \<Rightarrow> nat \<times> nat list" where
  "randbelow n rs = (case rs of [] \<Rightarrow> (0, []) | x # rs' \<Rightarrow> (x mod n, rs'))"

fun shuffle_loop :: "nat \<Rightarrow> 'a list \<Rightarrow> nat list \<Rightarrow> 'a list \<times> nat list" where
  "shuffle_loop 0 xs rs = (xs, rs)"
| "shuffle_loop (Suc k) xs rs =
     (case randbelow (Suc k + 1) rs of
        (j, rs') \<Rightarrow> shuffle_loop k (xs[Suc k := xs ! j, j := xs ! Suc k]) rs')"

definition shuffle :: "'a list \<Rightarrow> nat list \<Rightarrow> 'a list \<times> nat list" where
  "shuffle xs rs = shuffle_loop (length xs - 1) xs rs"

section \<open>Game (tetris.py, lines 265-504)\<close>

record game =
  board :: grid
  current_piece :: "piece option"
  next_piece :: "piece option"
  score :: int
  level :: int
  lines_cleared :: int
  game_over :: bool
  paused :: bool
  last_fall_time :: int
  fall_speed :: int
  piece_bag :: "tetromino list"
  rng :: "nat list"

definition get_next_piece_type :: "game \<Rightarrow> error + (tetromino \<times> game)" where
  "get_next_piece_type g =
     (let g1 = (if piece_bag g = [] then
                  (case shuffle TETROMINOES_keys (rng g) of
                     (bag, rs) \<Rightarrow> g\<lparr>piece_bag := bag, rng := rs\<rparr>)
                else g)
      in case pop (piece_bag g1) of
           Inl e \<Rightarrow> Inl e
         | Inr (t, bag') \<Rightarrow> Inr (t, g1\<lparr>piece_bag := bag'\<rparr>))"

text \<open>The first two statements of \<^verbatim>\<open>spawn_piece\<close>: fill \<^verbatim>\<open>next_piece\<close> if absent.\<close>

definition ensure_next_piece :: "game \<Rightarrow> error + game" where
  "ensure_next_piece g =
     (if next_piece g = None then
        (case get_next_piece_type g of
           Inl e \<Rightarrow> Inl e
         | Inr (t, g1) \<Rightarrow> Inr (g1\<lparr>next_piece := Some (Piece t)\<rparr>))
      else Inr g)"

definition spawn_piece :: "int \<Rightarrow> game \<Rightarrow> error + (bool \<times> game)" where
  "spawn_piece now g =
     (case ensure_next_piece g of
        Inl e \<Rightarrow> Inl e
      | Inr g1 \<Rightarrow>
          (let g2 = g1\<lparr>current_piece := next_piece g1\<rparr> in
           case get_next_piece_type g2 of
             Inl e \<Rightarrow> Inl e
           | Inr (t, g3) \<Rightarrow>
               (let g4 = g3\<lparr>next_piece := Some (Piece t)\<rparr> in
                case current_piece g4 of
                  None \<Rightarrow> Inl AttributeError
                | Some p \<Rightarrow>
                    (case get_cells p of
                       Inl e \<Rightarrow> Inl e
                     | Inr cs \<Rightarrow>
                         (case is_valid_position (board g4) cs of
                            Inl e \<Rightarrow> Inl e
                          | Inr ok \<Rightarrow>
                              if \<not> ok then Inr (False, g4\<lparr>game_over := True\<rparr>)
                              else Inr (True, g4\<lparr>last_fall_time := now\<rparr>))))))"

definition reset_game :: "int \<Rightarrow> game \<Rightarrow> error + game" where
  "reset_game now g =
     (case spawn_piece now
         \<lparr>board = Board_init, current_piece = None, next_piece = None,
          score = 0, level = 1, lines_cleared = 0, game_over = False, paused = False,
          last_fall_time = now, fall_speed = FALL_SPEED, piece_bag = [], rng = rng g\<rparr> of
        Inl e \<Rightarrow> Inl e
      | Inr (ok, g') \<Rightarrow> Inr g')"

definition move_piece :: "int \<Rightarrow> int \<Rightarrow> game \<Rightarrow> error + (bool \<times> game)" where
  "move_piece d_row d_col g =
     (case current_piece g of
        None \<Rightarrow> Inr (False, g)
      | Some p \<Rightarrow>
          (case get_cells_at p (row p + d_row) (col p + d_col) (rotation_index p) of
             Inl e \<Rightarrow> Inl e
           | Inr new_cells \<Rightarrow>
               (case is_valid_position (board g) new_cells of
                  Inl e \<Rightarrow> Inl e
                | Inr ok \<Rightarrow>
                    if ok then
                      Inr (True, g\<lparr>current_piece :=
                                   Some (p\<lparr>row := row p + d_row, col := col p + d_col\<rparr>)\<rparr>)
                    else Inr (False, g))))"

text \<open>The wall-kick loop of \<^verbatim>\<open>rotate_piece\<close>: \<^verbatim>\<open>for offset in [1, -1, 2, -2]\<close>.\<close>

fun wall_kick :: "game \<Rightarrow> piece \<Rightarrow> int \<Rightarrow> int list \<Rightarrow> error + (bool \<times> game)" where
  "wall_kick g p new_rotation [] = Inr (False, g)"
| "wall_kick g p new_rotation (offset # offsets) =
     (case get_cells_at p (row p) (col p + offset) new_rotation of
        Inl e \<Rightarrow> Inl e
      | Inr new_cells \<Rightarrow>
          (case is_valid_position (board g) new_cells of
             Inl e \<Rightarrow> Inl e
           | Inr ok \<Rightarrow>
               if ok then
                 Inr (True, g\<lparr>current_piece :=
                              Some (p\<lparr>rotation_index := new_rotation, col := col p + offset\<rparr>)\<rparr>)
               else wall_kick g p new_rotation offsets))"

definition rotate_piece :: "bool \<Rightarrow> game \<Rightarrow> error + (bool \<times> game)" where
  "rotate_piece clockwise g =
     (case current_piece g of
        None \<Rightarrow> Inr (False, g)
      | Some p \<Rightarrow>
          (let new_rotation = (if clockwise then rotate_cw p else rotate_ccw p) in
           case get_cells_at p (row p) (col p) new_rotation of
             Inl e \<Rightarrow> Inl e
           | Inr new_cells \<Rightarrow>
               (case is_valid_position (board g) new_cells of
                  Inl e \<Rightarrow> Inl e
                | Inr ok \<Rightarrow>
                    if ok then
                      Inr (True, g\<lparr>current_piece := Some (p\<lparr>rotation_index := new_rotation\<rparr>)\<rparr>)
                    else wall_kick g p new_rotation [1, -1, 2, -2])))"

text \<open>\<^verbatim>\<open>scores.get(lines, 0)\<close> for \<^verbatim>\<open>scores = {1: 100, 2: 300, 3: 500, 4: 800}\<close>.\<close>

definition scores_get :: "int \<Rightarrow> int" where
  "scores_get lines =
     (if lines = 1 then 100 else if lines = 2 then 300 else if lines = 3 then 500
      else if lines = 4 then 800 else 0)"

definition calculate_score :: "game \<Rightarrow> int \<Rightarrow> int" where
  "calculate_score g lines = scores_get lines * level g"

definition lock_piece :: "int \<Rightarrow> game \<Rightarrow> error + game" where
  "lock_piece now g =
     (case current_piece g of
        None \<Rightarrow> Inr g
      | Some p \<Rightarrow>
          (case Board_lock_piece (board g) p of
             Inl e \<Rightarrow> Inl e
           | Inr b1 \<Rightarrow>
               (case clear_lines b1 of
                  Inl e \<Rightarrow> Inl e
                | Inr (b2, lines) \<Rightarrow>
                    (let g1 = g\<lparr>board := b2\<rparr>;
                         g5 = (if lines > 0 then
                                 (let g2 = g1\<lparr>lines_cleared := lines_cleared g1 + lines\<rparr>;
                                      g3 = g2\<lparr>score := score g2 + calculate_score g2 lines\<rparr>;
                                      g4 = g3\<lparr>level := lines_cleared g3 div 10 + 1\<rparr>
                                  in g4\<lparr>fall_speed := max 100 (FALL_SPEED - (level g4 - 1) * 50)\<rparr>)
                               else g1)
                     in case spawn_piece now g5 of
                          Inl e \<Rightarrow> Inl e
                        | Inr (ok, g6) \<Rightarrow> Inr g6))))"

section \<open>The descent loops of hard drop and of the ghost piece\<close>

lemma TETROMINOES_shape:
  "offs \<in> set (TETROMINOES t) \<Longrightarrow> offs \<noteq> [] \<and> (\<forall>(dr, dc) \<in> set offs. 0 \<le> dr \<and> dr \<le> 3 \<and> 0 \<le> dc \<and> dc \<le> 3)"
  by (cases t) auto

lemma py_get_Inr_iff:
  "py_get xs i = Inr x \<longleftrightarrow>
     (if i < 0 then 0 \<le> int (length xs) + i \<and> x = xs ! nat (int (length xs) + i)
      else i < int (length xs) \<and> x = xs ! nat i)"
  by (auto simp: py_get_def py_index_def)

lemma py_get_in_set: "py_get xs i = Inr x \<Longrightarrow> x \<in> set xs"
  by (auto simp: py_get_def py_index_def split: if_splits)

lemma is_valid_position_True_bounds:
  "is_valid_position g cs = Inr True \<Longrightarrow> (r, c) \<in> set cs \<Longrightarrow>
     r < BOARD_HEIGHT \<and> 0 \<le> c \<and> c < BOARD_WIDTH"
  by (induction g cs rule: is_valid_position.induct)
     (auto split: if_splits sum.splits)

lemma get_cells_at_valid_row:
  assumes "get_cells_at p r c rot = Inr cs" and "is_valid_position g cs = Inr True"
  shows "r < BOARD_HEIGHT"
proof -
  from assms(1) obtain offs where offs: "offs \<in> set (TETROMINOES (piece_type p))"
    and cs: "cs = map (\<lambda>(dr, dc). (r + dr, c + dc)) offs"
    by (auto simp: get_cells_at_def rotations_def split: sum.splits dest: py_get_in_set)
  from TETROMINOES_shape [OF offs] obtain dr dc where d: "(dr, dc) \<in> set offs" "0 \<le> dr"
    by (cases offs) auto
  then have "(r + dr, c + dc) \<in> set cs"
    using cs by force
  from is_valid_position_True_bounds [OF assms(2) this] d(2) show ?thesis
    by simp
qed

definition drop_measure :: "game \<Rightarrow> nat" where
  "drop_measure g = (case current_piece g of None \<Rightarrow> 0 | Some p \<Rightarrow> nat (BOARD_HEIGHT - row p))"

lemma move_piece_down_measure:
  assumes "move_piece 1 0 g = Inr (True, g')"
  shows "drop_measure g' < drop_measure g"
proof -
  from assms obtain p cs where p: "current_piece g = Some p"
    and cs: "get_cells_at p (row p + 1) (col p + 0) (rotation_index p) = Inr cs"
    and ok: "is_valid_position (board g) cs = Inr True"
    and g': "g' = g\<lparr>current_piece := Some (p\<lparr>row := row p + 1, col := col p + 0\<rparr>)\<rparr>"
    by (auto simp: move_piece_def split: option.splits sum.splits if_splits)
  from get_cells_at_valid_row [OF cs ok] have "row p + 1 < BOARD_HEIGHT" .
  then show ?thesis
    by (simp add: drop_measure_def p g')
qed

function hard_drop_loop :: "game \<Rightarrow> int \<Rightarrow> error + (game \<times> int)" where
  "hard_drop_loop g cells_dropped =
     (case move_piece 1 0 g of
        Inl e \<Rightarrow> Inl e
      | Inr (moved, g') \<Rightarrow>
          if moved then hard_drop_loop g' (cells_dropped + 1) else Inr (g', cells_dropped))"
  by pat_completeness auto
termination
  by (relation "measure (\<lambda>(g, n). drop_measure g)")
     (auto dest: move_piece_down_measure)

declare hard_drop_loop.simps [simp del]

function ghost_loop :: "grid \<Rightarrow> piece \<Rightarrow> int \<Rightarrow> error + int" where
  "ghost_loop b p ghost_row =
     (case get_cells_at p (ghost_row + 1) (col p) (rotation_index p) of
        Inl e \<Rightarrow> Inl e
      | Inr new_cells \<Rightarrow>
          (case is_valid_position b new_cells of
             Inl e \<Rightarrow> Inl e
           | Inr ok \<Rightarrow> if ok then ghost_loop b p (ghost_row + 1) else Inr ghost_row))"
  by pat_completeness auto
termination
  by (relation "measure (\<lambda>(b, p, ghost_row). nat (BOARD_HEIGHT - ghost_row))")
     (auto dest: get_cells_at_valid_row)

declare ghost_loop.simps [simp del]

definition hard_drop :: "int \<Rightarrow> game \<Rightarrow> error + game" where
  "hard_drop now g =
     (case current_piece g of
        None \<Rightarrow> Inr g
      | Some p \<Rightarrow>
          (case hard_drop_loop g 0 of
             Inl e \<Rightarrow> Inl e
           | Inr (g1, cells_dropped) \<Rightarrow>
               lock_piece now (g1\<lparr>score := score g1 + cells_dropped * 2\<rparr>)))"

definition get_ghost_position :: "game \<Rightarrow> error + cells" where
  "get_ghost_position g =
     (case current_piece g of
        None \<Rightarrow> Inr []
      | Some p \<Rightarrow>
          (case ghost_loop (board g) p (row p) of
             Inl e \<Rightarrow> Inl e
           | Inr ghost_row \<Rightarrow> get_cells_at p ghost_row (col p) (rotation_index p)))"

definition update :: "int \<Rightarrow> game \<Rightarrow> error + game" where
  "update now g =
     (if game_over g \<or> paused g then Inr g
      else if now - last_fall_time g \<ge> fall_speed g then
        (case move_piece 1 0 g of
           Inl e \<Rightarrow> Inl e
         | Inr (moved, g1) \<Rightarrow>
             (case (if \<not> moved then lock_piece now g1 else Inr g1) of
                Inl e \<Rightarrow> Inl e
              | Inr g2 \<Rightarrow> Inr (g2\<lparr>last_fall_time := now\<rparr>)))
      else Inr g)"

text \<open>
  Keyboard events: the keys that \<^verbatim>\<open>handle_input\<close> tests, any other key, and any
  event that is not \<^verbatim>\<open>KEYDOWN\<close>. \<^verbatim>\<open>exit()\<close> raises \<^verbatim>\<open>SystemExit\<close>.
\<close>

datatype key = K_ESCAPE | K_r | K_p | K_LEFT | K_RIGHT | K_DOWN | K_UP | K_SPACE | K_other

datatype event = KEYDOWN key | Other_event

definition handle_input :: "int \<Rightarrow> event \<Rightarrow> game \<Rightarrow> error + game" where
  "handle_input now ev g =
     (case ev of
        Other_event \<Rightarrow> Inr g
      | KEYDOWN k \<Rightarrow>
          if k = K_ESCAPE then Inl SystemExit
          else if game_over g then (if k = K_r then reset_game now g else Inr g)
          else if k = K_p then Inr (g\<lparr>paused := \<not> paused g\<rparr>)
          else if paused g then Inr g
          else if k = K_LEFT then
            (case move_piece 0 (- 1) g of Inl e \<Rightarrow> Inl e | Inr (moved, g1) \<Rightarrow> Inr g1)
          else if k = K_RIGHT then
            (case move_piece 0 1 g of Inl e \<Rightarrow> Inl e | Inr (moved, g1) \<Rightarrow> Inr g1)
          else if k = K_DOWN then
            (case move_piece 1 0 g of
               Inl e \<Rightarrow> Inl e
             | Inr (moved, g1) \<Rightarrow>
                 if moved then Inr (g1\<lparr>score := score g1 + 1, last_fall_time := now\<rparr>)
                 else Inr g1)
          else if k = K_UP then
            (case rotate_piece True g of Inl e \<Rightarrow> Inl e | Inr (rotated, g1) \<Rightarrow> Inr g1)
          else if k = K_SPACE then hard_drop now g
          else Inr g)"

section \<open>Board properties\<close>

text \<open>The shape of a board's grid: 20 rows of 10 cells.\<close>

definition wf_grid :: "grid \<Rightarrow> bool" where
  "wf_grid g \<longleftrightarrow>
     int (length g) = BOARD_HEIGHT \<and> (\<forall>line \<in> set g. int (length line) = BOARD_WIDTH)"

lemma wf_grid_Board_init: "wf_grid Board_init"
  by (simp add: wf_grid_def Board_init_def empty_row_def BOARD_HEIGHT_def BOARD_WIDTH_def)

lemma wf_grid_get:
  assumes "wf_grid g" and "0 \<le> r" and "r < BOARD_HEIGHT"
  shows "py_get g r = Inr (g ! nat r)" and "int (length (g ! nat r)) = BOARD_WIDTH"
  using assms by (auto simp: wf_grid_def py_get_def py_index_def)

lemma wf_grid_get_cell:
  assumes "wf_grid g" and "0 \<le> r" and "r < BOARD_HEIGHT" and "0 \<le> c" and "c < BOARD_WIDTH"
  shows "py_get (g ! nat r) c = Inr (g ! nat r ! nat c)"
  using wf_grid_get(2) [OF assms(1-3)] assms(4,5) by (auto simp: py_get_def py_index_def)

text \<open>
  The declarative reading of a valid position: columns inside the board, rows above the
  bottom, visible cells empty.
\<close>

definition position_ok :: "grid \<Rightarrow> cells \<Rightarrow> bool" where
  "position_ok g cs \<longleftrightarrow>
     (\<forall>(r, c) \<in> set cs. 0 \<le> c \<and> c < 10 \<and> r < 20 \<and> (0 \<le> r \<longrightarrow> g ! nat r ! nat c = None))"

lemma is_valid_position_wf:
  "wf_grid g \<Longrightarrow> is_valid_position g cs = Inr (position_ok g cs)"
proof (induction cs)
  case Nil
  then show ?case by (simp add: position_ok_def)
next
  case (Cons rc cs)
  obtain r c where rc: "rc = (r, c)" by (cases rc)
  have tl: "position_ok g (rc # cs) \<longleftrightarrow>
      (0 \<le> c \<and> c < 10 \<and> r < 20 \<and> (0 \<le> r \<longrightarrow> g ! nat r ! nat c = None)) \<and> position_ok g cs"
    by (simp add: position_ok_def rc)
  show ?case
  proof (cases "0 \<le> c \<and> c < BOARD_WIDTH \<and> r < BOARD_HEIGHT")
    case False
    then show ?thesis
      unfolding tl by (auto simp: rc BOARD_WIDTH_def BOARD_HEIGHT_def)
  next
    case inb: True
    show ?thesis
    proof (cases "0 \<le> r")
      case True
      with inb Cons.prems have "py_get g r = Inr (g ! nat r)"
        and "py_get (g ! nat r) c = Inr (g ! nat r ! nat c)"
        by (simp_all add: wf_grid_get wf_grid_get_cell)
      with inb True Cons show ?thesis
        unfolding tl by (auto simp: rc BOARD_WIDTH_def BOARD_HEIGHT_def)
    next
      case False
      with inb Cons show ?thesis
        unfolding tl by (auto simp: rc BOARD_WIDTH_def BOARD_HEIGHT_def)
    qed
  qed
qed

text \<open>
  C5: on every board (20 rows of 10 cells) and for every list of cells,
  \<^verbatim>\<open>is_valid_position\<close> returns a value, never an exception, and the value is true
  exactly when every cell has its column in [0, 10), its row below 20 (negative rows are
  permitted) and, when its row is at least 0, an empty grid cell.
\<close>

theorem is_valid_position_iff:
  assumes "wf_grid g"
  shows "is_valid_position g cs =
     Inr (\<forall>(r, c) \<in> set cs. 0 \<le> c \<and> c < 10 \<and> r < 20 \<and> (0 \<le> r \<longrightarrow> g ! nat r ! nat c = None))"
  using is_valid_position_wf [OF assms, of cs] by (simp add: position_ok_def)

theorem is_valid_position_iff_witness:
  "wf_grid Board_init \<and> is_valid_position Board_init [(-1, 3), (0, 3), (19, 9)] = Inr True
   \<and> is_valid_position Board_init [(0, 3), (0, 10)] = Inr False
   \<and> is_valid_position Board_init [(20, 3)] = Inr False"
  using is_valid_position_iff [OF wf_grid_Board_init, of "[(-1, 3), (0, 3), (19, 9)]"]
    is_valid_position_iff [OF wf_grid_Board_init, of "[(0, 3), (0, 10)]"]
    is_valid_position_iff [OF wf_grid_Board_init, of "[(20, 3)]"]
    wf_grid_Board_init
  by (simp add: Board_init_def empty_row_def BOARD_HEIGHT_def BOARD_WIDTH_def)

subsection \<open>Removing a row\<close>

lemma length_del_row: "i < length xs \<Longrightarrow> length (del_row xs i) = length xs - 1"
  by (simp add: del_row_def)

lemma nth_del_row_above: "i \<le> j \<Longrightarrow> Suc j < length xs \<Longrightarrow> del_row xs i ! j = xs ! Suc j"
  by (simp add: del_row_def nth_append min_def)

lemma filter_del_row:
  assumes "i < length xs"
  shows "filter P xs = filter P (take i xs) @ (if P (xs ! i) then [xs ! i] else [])
           @ filter P (drop (Suc i) xs)"
proof -
  have "filter P xs = filter P (take i xs @ xs ! i # drop (Suc i) xs)"
    using id_take_nth_drop [OF assms] by simp
  then show ?thesis by simp
qed

lemma filter_del_row_complete:
  assumes "i < length g" and "complete (g ! i)"
  shows "filter (\<lambda>l. \<not> complete l) (del_row g i) = filter (\<lambda>l. \<not> complete l) g"
    and "Suc (length (filter complete (del_row g i))) = length (filter complete g)"
  using filter_del_row [OF assms(1), of "\<lambda>l. \<not> complete l"]
    filter_del_row [OF assms(1), of complete] assms(2)
  by (simp_all add: del_row_def)

text \<open>
  The grid that collapsing downward produces, and the number of rows removed: the
  complete rows are gone, the others keep their order, and as many empty rows are on top.
\<close>

definition collapsed :: "grid \<Rightarrow> grid" where
  "collapsed g =
     replicate (length (filter complete g)) empty_row @ filter (\<lambda>line. \<not> complete line) g"

lemma clear_lines_loop_collapsed:
  assumes "- 1 \<le> r" and "r < int (length g)"
    and "\<And>i. nat (r + 1) \<le> i \<Longrightarrow> i < length g \<Longrightarrow> \<not> complete (g ! i)"
  shows "clear_lines_loop g r n = Inr (collapsed g, n + int (length (filter complete g)))"
  using assms
proof (induction g r n rule: clear_lines_loop.induct)
  case (1 g r n)
  show ?case
  proof (cases "0 \<le> r")
    case False
    with "1.prems" have r: "r = - 1" by simp
    have "\<not> complete l" if "l \<in> set g" for l
      using that "1.prems"(3) r by (auto simp: in_set_conv_nth)
    then have "filter complete g = []" and "filter (\<lambda>l. \<not> complete l) g = g"
      by (simp_all add: filter_empty_conv)
    with r show ?thesis
      by (subst clear_lines_loop.simps) (simp add: collapsed_def)
  next
    case nonneg: True
    with "1.prems" have lt: "nat r < length g" by simp
    with nonneg have get: "py_get g r = Inr (g ! nat r)"
      by (simp add: py_get_def py_index_def)
    show ?thesis
    proof (cases "complete (g ! nat r)")
      case True
      let ?g' = "empty_row # del_row g (nat r)"
      have len: "length ?g' = length g"
        using lt by (simp add: length_del_row)
      have above: "\<not> complete (?g' ! i)" if "nat (r + 1) \<le> i" and "i < length ?g'" for i
      proof -
        from that nonneg obtain j where i: "i = Suc j" and j: "nat r \<le> j"
          by (cases i) (auto simp: nat_add_distrib)
        from that(2) len i have "Suc j < length g" by simp
        with j have "?g' ! i = g ! Suc j"
          by (simp add: i nth_del_row_above)
        moreover have "\<not> complete (g ! Suc j)"
          using "1.prems"(3) [of "Suc j"] j \<open>Suc j < length g\<close> nonneg
          by (simp add: nat_add_distrib)
        ultimately show ?thesis by simp
      qed
      have IH: "clear_lines_loop ?g' r (n + 1) =
          Inr (collapsed ?g', n + 1 + int (length (filter complete ?g')))"
        using "1.IH"(1) [OF nonneg get True "1.prems"(1)] len "1.prems"(2) above
        by simp
      from filter_del_row_complete [OF lt True]
      have "collapsed ?g' = collapsed g"
        and "1 + int (length (filter complete ?g')) = int (length (filter complete g))"
        by (simp_all add: collapsed_def empty_row_not_complete replicate_app_Cons_same
            flip: replicate_Suc)
      with IH show ?thesis
        using nonneg get True by (subst clear_lines_loop.simps) simp
    next
      case False
      have above: "\<not> complete (g ! i)" if "nat (r - 1 + 1) \<le> i" and "i < length g" for i
      proof (cases "i = nat r")
        case True
        with False show ?thesis by simp
      next
        case neq: False
        with that nonneg have "nat (r + 1) \<le> i" by (simp add: nat_add_distrib)
        with that(2) "1.prems"(3) show ?thesis by simp
      qed
      have "clear_lines_loop g (r - 1) n =
          Inr (collapsed g, n + int (length (filter complete g)))"
        using "1.IH"(2) [OF nonneg get False] nonneg "1.prems"(2) above by simp
      then show ?thesis
        using nonneg get False by (subst clear_lines_loop.simps) simp
    qed
  qed
qed

lemma clear_lines_collapsed:
  assumes "int (length g) = BOARD_HEIGHT"
  shows "clear_lines g = Inr (collapsed g, int (length (filter complete g)))"
  unfolding clear_lines_def
  using clear_lines_loop_collapsed [of "BOARD_HEIGHT - 1" g 0] assms
  by (simp add: BOARD_HEIGHT_def)


text \<open>
  C3: \<^verbatim>\<open>clear_lines\<close> removes every row whose cells are all non-empty, puts one
  empty row on top for each removal, keeps the remaining rows in their order, and returns
  the number of rows removed; on the all-empty grid it returns 0 and the grid unchanged.
\<close>

theorem clear_lines_correct:
  "(int (length g) = 20 \<longrightarrow>
      clear_lines g =
        Inr (replicate (length (filter complete g)) empty_row
               @ filter (\<lambda>line. \<not> complete line) g,
             int (length (filter complete g))))
   \<and> clear_lines Board_init = Inr (Board_init, 0)"
proof
  show "int (length g) = 20 \<longrightarrow>
      clear_lines g =
        Inr (replicate (length (filter complete g)) empty_row
               @ filter (\<lambda>line. \<not> complete line) g,
             int (length (filter complete g)))"
    using clear_lines_collapsed [of g] by (simp add: collapsed_def BOARD_HEIGHT_def)
next
  have "int (length Board_init) = BOARD_HEIGHT"
    by (simp add: Board_init_def BOARD_HEIGHT_def)
  from clear_lines_collapsed [OF this] show "clear_lines Board_init = Inr (Board_init, 0)"
    by (simp add: collapsed_def Board_init_def empty_row_not_complete)
qed

text \<open>
  A grid with two complete rows (19 and 17) around a partial one: the partial row drops
  to the bottom and two empty rows appear on top.
\<close>

definition partial_row :: "cell list" where
  "partial_row = Some Tet_T # replicate 9 None"

definition full_row :: "cell list" where
  "full_row = replicate 10 (Some Tet_I)"

definition two_full_grid :: grid where
  "two_full_grid = replicate 17 empty_row @ [full_row, partial_row, full_row]"

theorem clear_lines_correct_witness:
  "int (length two_full_grid) = 20
   \<and> clear_lines two_full_grid = Inr (replicate 19 empty_row @ [partial_row], 2)"
proof -
  have c: "complete full_row" "\<not> complete partial_row"
    by (simp_all add: complete_def full_row_def partial_row_def list_all_iff)
  have len: "int (length two_full_grid) = 20"
    by (simp add: two_full_grid_def)
  have "empty_row # empty_row # replicate 17 empty_row = replicate 19 empty_row"
    by (simp add: numeral_eq_Suc)
  with clear_lines_correct [of two_full_grid] len c show ?thesis
    by (simp add: two_full_grid_def empty_row_not_complete)
qed

subsection \<open>Locking a piece into the grid\<close>

lemma length_TETROMINOES: "length (TETROMINOES t) = 4"
  by (cases t) simp_all

text \<open>The rotation indices that a piece takes: 0, 1, 2, 3.\<close>

definition rotation_ok :: "int \<Rightarrow> bool" where
  "rotation_ok rot \<longleftrightarrow> 0 \<le> rot \<and> rot < 4"

text \<open>The cells of a shape at an anchor, read directly from the catalogue.\<close>

definition cells_at :: "tetromino \<Rightarrow> int \<Rightarrow> int \<Rightarrow> int \<Rightarrow> cells" where
  "cells_at t rot r c = map (\<lambda>(dr, dc). (r + dr, c + dc)) (TETROMINOES t ! nat rot)"

lemma get_cells_at_ok:
  "rotation_ok rot \<Longrightarrow> get_cells_at p r c rot = Inr (cells_at (piece_type p) rot r c)"
  by (simp add: get_cells_at_def rotations_def py_get_def py_index_def length_TETROMINOES
      rotation_ok_def cells_at_def)

lemma get_cells_ok:
  "rotation_ok (rotation_index p) \<Longrightarrow>
     get_cells p = Inr (cells_at (piece_type p) (rotation_index p) (row p) (col p))"
  by (simp add: get_cells_def rotations_def py_get_def py_index_def length_TETROMINOES
      rotation_ok_def cells_at_def)

lemma wf_grid_nth:
  assumes "wf_grid g" and "i < 20"
  shows "i < length g" and "length (g ! i) = 10"
proof -
  from assms show i: "i < length g"
    by (simp add: wf_grid_def BOARD_HEIGHT_def)
  then have "g ! i \<in> set g" by simp
  with assms(1) show "length (g ! i) = 10"
    by (simp add: wf_grid_def BOARD_WIDTH_def)
qed

lemma wf_grid_set_cell:
  assumes "wf_grid g"
  shows "wf_grid (g[i := (g ! i)[j := v]])"
proof (cases "i < length g")
  case True
  have "int (length l) = BOARD_WIDTH" if "l \<in> set (g[i := (g ! i)[j := v]])" for l
  proof -
    from that set_update_subset_insert [of g i "(g ! i)[j := v]"]
    have "l = (g ! i)[j := v] \<or> l \<in> set g"
      by blast
    moreover have "g ! i \<in> set g"
      using True by simp
    ultimately show ?thesis
      using assms by (auto simp: wf_grid_def)
  qed
  then show ?thesis
    using assms by (simp add: wf_grid_def)
next
  case False
  then have "g[i := (g ! i)[j := v]] = g"
    by (simp add: list_update_beyond)
  with assms show ?thesis
    by simp
qed

lemma lock_cells_wf:
  assumes "wf_grid g"
  shows "\<exists>g'. lock_cells g t cs = Inr g' \<and> wf_grid g' \<and>
     (\<forall>i < 20. \<forall>j < 10.
        g' ! i ! j = (if (int i, int j) \<in> set cs then Some t else g ! i ! j))"
  using assms
proof (induction cs arbitrary: g)
  case Nil
  then show ?case by simp
next
  case (Cons rc cs)
  obtain r c where rc: "rc = (r, c)" by (cases rc)
  show ?case
  proof (cases "0 \<le> r \<and> r < BOARD_HEIGHT \<and> 0 \<le> c \<and> c < BOARD_WIDTH")
    case False
    from Cons.IH [OF Cons.prems] obtain g' where g': "lock_cells g t cs = Inr g'" "wf_grid g'"
      "\<forall>i < 20. \<forall>j < 10. g' ! i ! j = (if (int i, int j) \<in> set cs then Some t else g ! i ! j)"
      by blast
    have ne: "(int i, int j) \<noteq> (r, c)" if "i < 20" "j < 10" for i j :: nat
      using False that by (auto simp: BOARD_HEIGHT_def BOARD_WIDTH_def)
    have "g' ! i ! j = (if (int i, int j) \<in> set (rc # cs) then Some t else g ! i ! j)"
      if "i < 20" "j < 10" for i j :: nat
      using g'(3) ne [OF that] that by (auto simp: rc)
    moreover from False g'(1) have "lock_cells g t (rc # cs) = Inr g'"
      by (auto simp: rc)
    ultimately show ?thesis
      using g'(2) by (intro exI [of _ g']) simp
  next
    case True
    let ?line = "(g ! nat r)[nat c := Some t]"
    let ?g1 = "g[nat r := ?line]"
    from True Cons.prems have get: "py_get g r = Inr (g ! nat r)"
      and len: "int (length (g ! nat r)) = BOARD_WIDTH"
      by (simp_all add: wf_grid_get)
    from len True have set: "py_set (g ! nat r) c (Some t) = Inr ?line"
      by (simp add: py_set_def py_index_def)
    have wf1: "wf_grid ?g1"
      using Cons.prems by (rule wf_grid_set_cell)
    from Cons.IH [OF wf1] obtain g' where g': "lock_cells ?g1 t cs = Inr g'" "wf_grid g'"
      "\<forall>i < 20. \<forall>j < 10. g' ! i ! j = (if (int i, int j) \<in> set cs then Some t else ?g1 ! i ! j)"
      by blast
    have step: "?g1 ! i ! j = (if (int i, int j) = (r, c) then Some t else g ! i ! j)"
      if "i < 20" "j < 10" for i j :: nat
    proof -
      from wf_grid_nth [OF Cons.prems that(1)] that(2)
      have i: "i < length g" and j: "j < length (g ! i)"
        by simp_all
      have eq: "(int i, int j) = (r, c) \<longleftrightarrow> i = nat r \<and> j = nat c"
        using True by auto
      show ?thesis
      proof (cases "i = nat r")
        case True
        with i j show ?thesis
          unfolding eq by (simp add: nth_list_update)
      next
        case False
        with i show ?thesis
          unfolding eq by simp
      qed
    qed
    have "g' ! i ! j = (if (int i, int j) \<in> set (rc # cs) then Some t else g ! i ! j)"
      if "i < 20" "j < 10" for i j :: nat
      using g'(3) step [OF that] that by (simp add: rc)
    moreover from True get set g'(1) have "lock_cells g t (rc # cs) = Inr g'"
      by (simp add: rc)
    ultimately show ?thesis
      using g'(2) by (intro exI [of _ g']) simp
  qed
qed

text \<open>
  C6: for every piece at every anchor, \<^verbatim>\<open>Board.lock_piece\<close> on a board returns
  without an out-of-range access, writes the piece's type into exactly those cells of the
  piece that lie on the board (row in [0, 20), column in [0, 10)), skips the others, and
  leaves every other cell of the grid as it was.
\<close>

theorem Board_lock_piece_correct:
  assumes "wf_grid g" and "rotation_ok (rotation_index p)"
  shows "\<exists>cs g'. get_cells p = Inr cs \<and> Board_lock_piece g p = Inr g' \<and> wf_grid g' \<and>
     (\<forall>i < 20. \<forall>j < 10.
        g' ! i ! j = (if (int i, int j) \<in> set cs then Some (piece_type p) else g ! i ! j))"
  using lock_cells_wf [OF assms(1)] get_cells_ok [OF assms(2)]
  by (simp add: Board_lock_piece_def)


text \<open>
  A T piece whose anchor is one row above the board: its top cell (-1, 4) is skipped, the
  three cells of row 0 are written.
\<close>

definition piece_above :: piece where
  "piece_above = \<lparr>piece_type = Tet_T, rotation_index = 0, row = - 1, col = 3\<rparr>"

theorem Board_lock_piece_correct_witness:
  "wf_grid Board_init \<and> rotation_ok (rotation_index piece_above)
   \<and> get_cells piece_above = Inr [(- 1, 4), (0, 3), (0, 4), (0, 5)]
   \<and> (\<exists>g'. Board_lock_piece Board_init piece_above = Inr g' \<and> wf_grid g'
         \<and> g' ! 0 ! 3 = Some Tet_T \<and> g' ! 0 ! 4 = Some Tet_T \<and> g' ! 0 ! 5 = Some Tet_T
         \<and> g' ! 0 ! 6 = None \<and> g' ! 1 ! 4 = None)"
proof -
  have rot: "rotation_ok (rotation_index piece_above)"
    by (simp add: rotation_ok_def piece_above_def)
  have cs: "get_cells piece_above = Inr [(- 1, 4), (0, 3), (0, 4), (0, 5)]"
    by (simp add: get_cells_def rotations_def piece_above_def py_get_def py_index_def)
  have init: "Board_init ! i ! j = None" if "i < 20" "j < 10" for i j
    using that by (simp add: Board_init_def empty_row_def BOARD_HEIGHT_def BOARD_WIDTH_def)
  from Board_lock_piece_correct [OF wf_grid_Board_init rot] cs
  obtain g' where g': "Board_lock_piece Board_init piece_above = Inr g'" "wf_grid g'"
    and cells: "\<forall>i<20. \<forall>j<10. g' ! i ! j =
        (if (int i, int j) \<in> set [(- 1, 4), (0, 3), (0, 4), (0, 5)]
         then Some (piece_type piece_above) else Board_init ! i ! j)"
    by auto
  from cells have "g' ! 0 ! 3 = Some Tet_T" "g' ! 0 ! 4 = Some Tet_T" "g' ! 0 ! 5 = Some Tet_T"
    by (simp_all add: piece_above_def)
  moreover from cells init have "g' ! 0 ! 6 = None" "g' ! 1 ! 4 = None"
    by simp_all
  ultimately show ?thesis
    using wf_grid_Board_init rot cs g' by simp
qed

subsection \<open>The shape of the grid is invariant\<close>

lemma wf_grid_iff: "wf_grid g \<longleftrightarrow> length g = 20 \<and> (\<forall>line \<in> set g. length line = 10)"
  by (auto simp: wf_grid_def BOARD_HEIGHT_def BOARD_WIDTH_def)

lemma wf_grid_collapsed:
  assumes "wf_grid g"
  shows "wf_grid (collapsed g)"
proof -
  have "length (filter complete g) + length (filter (\<lambda>line. \<not> complete line) g) = length g"
    by (rule sum_length_filter_compl)
  then have "length (collapsed g) = length g"
    by (simp add: collapsed_def)
  moreover have "length line = 10" if "line \<in> set (collapsed g)" for line
    using that assms
    by (auto simp: collapsed_def wf_grid_iff empty_row_def BOARD_WIDTH_def)
  ultimately show ?thesis
    using assms by (simp add: wf_grid_iff)
qed

lemma clear_lines_wf:
  assumes "wf_grid g"
  shows "clear_lines g = Inr (collapsed g, int (length (filter complete g)))"
    and "wf_grid (collapsed g)"
  using assms clear_lines_collapsed [of g] wf_grid_collapsed
  by (simp_all add: wf_grid_def)

lemma Board_lock_piece_wf:
  assumes "wf_grid g" and "rotation_ok (rotation_index p)"
  shows "\<exists>g'. Board_lock_piece g p = Inr g' \<and> wf_grid g'"
proof -
  from lock_cells_wf [OF assms(1)] obtain g' where
    "lock_cells g (piece_type p) (cells_at (piece_type p) (rotation_index p) (row p) (col p))
       = Inr g'" and "wf_grid g'"
    by blast
  with get_cells_ok [OF assms(2)] show ?thesis
    by (simp add: Board_lock_piece_def)
qed

text \<open>Sequences of the two operations that change the grid.\<close>

datatype board_op = Lock piece | Clear_lines

fun board_ops :: "grid \<Rightarrow> board_op list \<Rightarrow> error + grid" where
  "board_ops g [] = Inr g"
| "board_ops g (Lock p # ops) =
     (case Board_lock_piece g p of Inl e \<Rightarrow> Inl e | Inr g' \<Rightarrow> board_ops g' ops)"
| "board_ops g (Clear_lines # ops) =
     (case clear_lines g of Inl e \<Rightarrow> Inl e | Inr (g', n) \<Rightarrow> board_ops g' ops)"

lemma board_ops_wf:
  assumes "wf_grid g" and "\<And>p. Lock p \<in> set ops \<Longrightarrow> rotation_ok (rotation_index p)"
  shows "\<exists>g'. board_ops g ops = Inr g' \<and> wf_grid g'"
  using assms
proof (induction ops arbitrary: g)
  case Nil
  then show ?case by simp
next
  case (Cons op ops)
  show ?case
  proof (cases op)
    case (Lock p)
    with Cons.prems have "rotation_ok (rotation_index p)" by simp
    from Board_lock_piece_wf [OF Cons.prems(1) this]
    obtain g1 where g1: "Board_lock_piece g p = Inr g1" "wf_grid g1" by blast
    from Cons.IH [OF g1(2)] Cons.prems(2) g1(1) Lock show ?thesis
      by simp
  next
    case Clear_lines
    from Cons.IH [OF clear_lines_wf(2) [OF Cons.prems(1)]] Cons.prems(2)
      clear_lines_wf(1) [OF Cons.prems(1)] Clear_lines
    show ?thesis by simp
  qed
qed

text \<open>
  C10: the grid of a new board has exactly 20 rows of exactly 10 cells, and every sequence
  of \<^verbatim>\<open>lock_piece\<close> and \<^verbatim>\<open>clear_lines\<close> calls, from any grid of that shape,
  returns a grid of that shape.
\<close>

theorem grid_shape_invariant:
  "(length Board_init = 20 \<and> (\<forall>line \<in> set Board_init. length line = 10))
   \<and> (length g = 20 \<and> (\<forall>line \<in> set g. length line = 10)
        \<and> (\<forall>p. Lock p \<in> set ops \<longrightarrow> rotation_ok (rotation_index p))
      \<longrightarrow> (\<exists>g'. board_ops g ops = Inr g' \<and> length g' = 20
                \<and> (\<forall>line \<in> set g'. length line = 10)))"
  using wf_grid_Board_init board_ops_wf [of g ops]
  unfolding wf_grid_iff by blast

theorem grid_shape_invariant_witness:
  "length Board_init = 20
   \<and> (\<exists>g'. board_ops Board_init [Lock piece_above, Clear_lines, Lock (Piece Tet_I)] = Inr g'
         \<and> length g' = 20 \<and> list_all (\<lambda>line. length line = 10) g')"
proof -
  have "Lock p \<in> set [Lock piece_above, Clear_lines, Lock (Piece Tet_I)] \<longrightarrow>
      rotation_ok (rotation_index p)" for p
    by (auto simp: rotation_ok_def piece_above_def Piece_def)
  with grid_shape_invariant [of Board_init "[Lock piece_above, Clear_lines, Lock (Piece Tet_I)]"]
  show ?thesis
    unfolding list_all_iff by blast
qed

section \<open>Game properties\<close>

subsection \<open>Moving and rotating\<close>

lemma valid_at:
  assumes "wf_grid (board g)" and "rotation_ok rot"
  shows "(case get_cells_at p r c rot of
            Inl e \<Rightarrow> Inl e
          | Inr new_cells \<Rightarrow>
              (case is_valid_position (board g) new_cells of
                 Inl e \<Rightarrow> Inl e
               | Inr ok \<Rightarrow> f ok))
         = f (position_ok (board g) (cells_at (piece_type p) rot r c))"
  by (simp add: get_cells_at_ok [OF assms(2)] is_valid_position_wf [OF assms(1)])

lemma move_piece_wf:
  assumes "wf_grid (board g)" and "current_piece g = Some p"
    and "rotation_ok (rotation_index p)"
  shows "move_piece d_row d_col g =
     (if position_ok (board g)
           (cells_at (piece_type p) (rotation_index p) (row p + d_row) (col p + d_col))
      then Inr (True, g\<lparr>current_piece :=
                         Some (p\<lparr>row := row p + d_row, col := col p + d_col\<rparr>)\<rparr>)
      else Inr (False, g))"
  unfolding move_piece_def assms(2) option.case valid_at [OF assms(1,3)]
  by simp

text \<open>The state that \<^verbatim>\<open>reset_game\<close> builds when every random draw is 0.\<close>

definition fresh_game :: game where
  "fresh_game =
     \<lparr>board = Board_init, current_piece = Some (Piece Tet_I), next_piece = Some (Piece Tet_L),
      score = 0, level = 1, lines_cleared = 0, game_over = False, paused = False,
      last_fall_time = 0, fall_speed = 500,
      piece_bag = [Tet_O, Tet_T, Tet_S, Tet_Z, Tet_J], rng = []\<rparr>"

text \<open>
  C8: \<^verbatim>\<open>move_piece\<close> with no current piece returns false and the state unchanged;
  with a current piece it returns true and the state with the anchor moved by the delta
  (rotation, grid and counters untouched) when the cells at the new anchor are a valid
  position, and false with the state unchanged otherwise.
\<close>

theorem move_piece_correct:
  assumes "wf_grid (board g)"
  shows "(current_piece g = None \<longrightarrow> move_piece d_row d_col g = Inr (False, g))
    \<and> (\<forall>p. current_piece g = Some p \<and> rotation_ok (rotation_index p) \<longrightarrow>
          move_piece d_row d_col g =
            (if position_ok (board g)
                  (cells_at (piece_type p) (rotation_index p) (row p + d_row) (col p + d_col))
             then Inr (True, g\<lparr>current_piece :=
                                Some (p\<lparr>row := row p + d_row, col := col p + d_col\<rparr>)\<rparr>)
             else Inr (False, g)))"
  using move_piece_wf [OF assms] by (simp add: move_piece_def)

lemma fresh_game_wf:
  "wf_grid (board fresh_game)" "current_piece fresh_game = Some (Piece Tet_I)"
  "rotation_ok (rotation_index (Piece Tet_I))"
  by (simp_all add: fresh_game_def wf_grid_Board_init rotation_ok_def Piece_def)

lemma Board_init_nth: "i < 20 \<Longrightarrow> j < 10 \<Longrightarrow> Board_init ! i ! j = None"
  by (simp add: Board_init_def empty_row_def BOARD_HEIGHT_def BOARD_WIDTH_def)

theorem move_piece_correct_witness:
  "wf_grid (board fresh_game) \<and> current_piece fresh_game = Some (Piece Tet_I)
   \<and> rotation_ok (rotation_index (Piece Tet_I))
   \<and> move_piece 0 (- 1) fresh_game =
       Inr (True, fresh_game\<lparr>current_piece :=
                    Some \<lparr>piece_type = Tet_I, rotation_index = 0, row = 0, col = 2\<rparr>\<rparr>)
   \<and> move_piece 0 (- 4) fresh_game = Inr (False, fresh_game)
   \<and> move_piece 1 0 (fresh_game\<lparr>current_piece := None\<rparr>)
       = Inr (False, fresh_game\<lparr>current_piece := None\<rparr>)"
proof -
  have wf': "wf_grid (board (fresh_game\<lparr>current_piece := None\<rparr>))"
    using fresh_game_wf(1) by simp
  have ok: "position_ok Board_init (cells_at Tet_I 0 0 2)"
    and bad: "\<not> position_ok Board_init (cells_at Tet_I 0 0 (- 1))"
    by (simp_all add: position_ok_def cells_at_def Board_init_nth)
  from move_piece_correct [OF fresh_game_wf(1), of 0 "- 1"]
    move_piece_correct [OF fresh_game_wf(1), of 0 "- 4"]
    move_piece_correct [OF wf', of 1 0] fresh_game_wf ok bad
  show ?thesis
    by (simp add: Piece_def BOARD_WIDTH_def fresh_game_def)
qed

lemma wall_kick_wf:
  assumes "wf_grid (board g)" and "rotation_ok new_rotation"
  shows "wall_kick g p new_rotation offsets =
     (case find (\<lambda>offset. position_ok (board g)
                   (cells_at (piece_type p) new_rotation (row p) (col p + offset))) offsets of
        None \<Rightarrow> Inr (False, g)
      | Some offset \<Rightarrow>
          Inr (True, g\<lparr>current_piece :=
                       Some (p\<lparr>rotation_index := new_rotation, col := col p + offset\<rparr>)\<rparr>))"
proof (induction offsets)
  case Nil
  show ?case by simp
next
  case (Cons offset offsets)
  show ?case
    unfolding wall_kick.simps valid_at [OF assms] Cons.IH
    by simp
qed

lemma rotation_ok_mod: "rotation_ok (n mod 4)"
  by (simp add: rotation_ok_def)

text \<open>
  C4: \<^verbatim>\<open>rotate_piece\<close> tests the target rotation at the unchanged anchor first and,
  when that position is valid, commits the rotation index alone; otherwise it commits the
  first of the column offsets 1, -1, 2, -2 (in this order) at which the rotated cells are
  valid, changing rotation index and anchor column together; in both cases it returns
  true. When all five positions are invalid it returns false and the state unchanged.
\<close>

theorem rotate_piece_correct:
  assumes "wf_grid (board g)" and "current_piece g = Some p"
  shows "rotate_piece clockwise g =
     (let new_rotation =
            (if clockwise then (rotation_index p + 1) mod 4 else (rotation_index p - 1) mod 4);
          valid = (\<lambda>offset. position_ok (board g)
                     (cells_at (piece_type p) new_rotation (row p) (col p + offset)))
      in if valid 0 then
           Inr (True, g\<lparr>current_piece := Some (p\<lparr>rotation_index := new_rotation\<rparr>)\<rparr>)
         else
           (case find valid [1, - 1, 2, - 2] of
              Some offset \<Rightarrow>
                Inr (True, g\<lparr>current_piece :=
                             Some (p\<lparr>rotation_index := new_rotation, col := col p + offset\<rparr>)\<rparr>)
            | None \<Rightarrow> Inr (False, g)))"
proof -
  define new_rotation where
    "new_rotation = (if clockwise then rotate_cw p else rotate_ccw p)"
  have ok: "rotation_ok new_rotation"
    by (simp add: new_rotation_def rotate_cw_def rotate_ccw_def rotation_ok_mod)
  have "rotate_piece clockwise g =
      (if position_ok (board g) (cells_at (piece_type p) new_rotation (row p) (col p))
       then Inr (True, g\<lparr>current_piece := Some (p\<lparr>rotation_index := new_rotation\<rparr>)\<rparr>)
       else wall_kick g p new_rotation [1, - 1, 2, - 2])"
    unfolding rotate_piece_def assms(2) option.case Let_def new_rotation_def [symmetric]
      valid_at [OF assms(1) ok]
    by simp
  then show ?thesis
    unfolding wall_kick_wf [OF assms(1) ok] Let_def
    by (simp add: new_rotation_def rotate_cw_def rotate_ccw_def split: option.splits)
qed


text \<open>
  A vertical I piece against the left wall (all four cells in column 0). On the empty
  board the in-place rotation would reach column -1 and the offset +1 is taken; with the
  cell (5, 1) occupied every candidate position is invalid.
\<close>

definition wall_piece :: piece where
  "wall_piece = \<lparr>piece_type = Tet_I, rotation_index = 3, row = 5, col = - 1\<rparr>"

definition wall_game :: game where
  "wall_game = fresh_game\<lparr>current_piece := Some wall_piece\<rparr>"

definition blocked_board :: grid where
  "blocked_board = Board_init[5 := empty_row[1 := Some Tet_O]]"

definition blocked_game :: game where
  "blocked_game = wall_game\<lparr>board := blocked_board\<rparr>"

lemma blocked_board_wf: "wf_grid blocked_board"
  unfolding blocked_board_def
  using wf_grid_set_cell [OF wf_grid_Board_init, of 5 1 "Some Tet_O"]
  by (simp add: Board_init_def BOARD_HEIGHT_def)

lemma blocked_board_5_1: "blocked_board ! 5 ! Suc 0 = Some Tet_O"
  by (simp add: blocked_board_def Board_init_def empty_row_def BOARD_HEIGHT_def BOARD_WIDTH_def)

theorem rotate_piece_correct_witness:
  "wf_grid (board wall_game) \<and> current_piece wall_game = Some wall_piece
   \<and> rotate_piece True wall_game =
       Inr (True, wall_game\<lparr>current_piece :=
                    Some \<lparr>piece_type = Tet_I, rotation_index = 0, row = 5, col = 0\<rparr>\<rparr>)
   \<and> wf_grid (board blocked_game) \<and> current_piece blocked_game = Some wall_piece
   \<and> rotate_piece True blocked_game = Inr (False, blocked_game)"
proof -
  have wf: "wf_grid (board wall_game)" and cur: "current_piece wall_game = Some wall_piece"
    by (simp_all add: wall_game_def fresh_game_def wf_grid_Board_init)
  have wfb: "wf_grid (board blocked_game)"
    and curb: "current_piece blocked_game = Some wall_piece"
    by (simp_all add: blocked_game_def wall_game_def blocked_board_wf)
  have free: "\<not> position_ok Board_init (cells_at Tet_I 0 5 (- 1))"
    "position_ok Board_init (cells_at Tet_I 0 5 0)"
    by (simp_all add: position_ok_def cells_at_def Board_init_nth)
  have blocked: "\<not> position_ok blocked_board (cells_at Tet_I 0 5 (- 1))"
    "\<not> position_ok blocked_board (cells_at Tet_I 0 5 0)"
    "\<not> position_ok blocked_board (cells_at Tet_I 0 5 (- 2))"
    "\<not> position_ok blocked_board (cells_at Tet_I 0 5 1)"
    "\<not> position_ok blocked_board (cells_at Tet_I 0 5 (- 3))"
    by (simp_all add: position_ok_def cells_at_def blocked_board_5_1)
  have "rotate_piece True wall_game =
       Inr (True, wall_game\<lparr>current_piece :=
                    Some \<lparr>piece_type = Tet_I, rotation_index = 0, row = 5, col = 0\<rparr>\<rparr>)"
    using rotate_piece_correct [OF wf cur, of True] free
    by (simp add: wall_piece_def wall_game_def fresh_game_def)
  moreover have "rotate_piece True blocked_game = Inr (False, blocked_game)"
    using rotate_piece_correct [OF wfb curb, of True] blocked
    by (simp add: wall_piece_def blocked_game_def wall_game_def fresh_game_def)
  ultimately show ?thesis
    using wf cur wfb curb by simp
qed

subsection \<open>Hard drop and the ghost piece\<close>

lemma position_ok_row_bound:
  assumes "position_ok b (cells_at t rot r c)" and "rotation_ok rot"
  shows "r < 20"
proof -
  have "nat rot < length (TETROMINOES t)"
    using assms(2) by (auto simp: rotation_ok_def length_TETROMINOES)
  then have "TETROMINOES t ! nat rot \<in> set (TETROMINOES t)"
    by (rule nth_mem)
  from TETROMINOES_shape [OF this] obtain dr dc
    where d: "(dr, dc) \<in> set (TETROMINOES t ! nat rot)" "0 \<le> dr"
    by (cases "TETROMINOES t ! nat rot") auto
  then have "(r + dr, c + dc) \<in> set (cells_at t rot r c)"
    by (force simp: cells_at_def)
  with assms(1) have "r + dr < 20"
    by (auto simp: position_ok_def)
  with d(2) show ?thesis by simp
qed

lemma ghost_loop_wf:
  assumes "wf_grid b" and "rotation_ok (rotation_index p)"
  shows "ghost_loop b p ghost_row =
     (if position_ok b (cells_at (piece_type p) (rotation_index p) (ghost_row + 1) (col p))
      then ghost_loop b p (ghost_row + 1) else Inr ghost_row)"
  by (subst ghost_loop.simps)
     (simp add: get_cells_at_ok [OF assms(2)] is_valid_position_wf [OF assms(1)])

lemma piece_row_col: "p\<lparr>row := a, col := col p\<rparr> = p\<lparr>row := a\<rparr>"
  by simp

lemma descent_from:
  assumes "wf_grid (board g)" and "rotation_ok (rotation_index p)"
  shows "\<exists>k\<ge>0. ghost_loop (board g) p r = Inr (r + k)
           \<and> hard_drop_loop (g\<lparr>current_piece := Some (p\<lparr>row := r\<rparr>)\<rparr>) n
               = Inr (g\<lparr>current_piece := Some (p\<lparr>row := r + k\<rparr>)\<rparr>, n + k)"
proof (induction "nat (20 - r)" arbitrary: r n rule: less_induct)
  case less
  let ?g = "\<lambda>r. g\<lparr>current_piece := Some (p\<lparr>row := r\<rparr>)\<rparr>"
  have move: "move_piece 1 0 (?g r) =
      (if position_ok (board g) (cells_at (piece_type p) (rotation_index p) (r + 1) (col p))
       then Inr (True, ?g (r + 1)) else Inr (False, ?g r))"
    using move_piece_wf [of "?g r" "p\<lparr>row := r\<rparr>" 1 0] assms
    by (simp add: piece_row_col)
  show ?case
  proof (cases "position_ok (board g)
      (cells_at (piece_type p) (rotation_index p) (r + 1) (col p))")
    case False
    with assms have "ghost_loop (board g) p r = Inr (r + 0)"
      by (subst ghost_loop_wf) simp_all
    moreover from False have "hard_drop_loop (?g r) n = Inr (?g (r + 0), n + 0)"
      by (subst hard_drop_loop.simps) (simp add: move)
    ultimately show ?thesis
      by (intro exI [of _ 0]) simp
  next
    case True
    from position_ok_row_bound [OF True assms(2)] have "nat (20 - (r + 1)) < nat (20 - r)"
      by simp
    from less.hyps [OF this, of "n + 1"]
    obtain k where k: "0 \<le> k" "ghost_loop (board g) p (r + 1) = Inr (r + 1 + k)"
      "hard_drop_loop (?g (r + 1)) (n + 1) = Inr (?g (r + 1 + k), n + 1 + k)"
      by blast
    from True assms k(2) have "ghost_loop (board g) p r = Inr (r + (k + 1))"
      by (subst ghost_loop_wf) (simp_all add: add.assoc add.commute)
    moreover from True k(3) have "hard_drop_loop (?g r) n = Inr (?g (r + (k + 1)), n + (k + 1))"
      by (subst hard_drop_loop.simps) (simp add: move add.assoc add.commute)
    ultimately show ?thesis
      using k(1) by (intro exI [of _ "k + 1"]) simp
  qed
qed


text \<open>
  C9: the descent of \<^verbatim>\<open>hard_drop\<close> (the \<^verbatim>\<open>while self.move_piece(1, 0)\<close> loop, before
  the score is added and the piece is locked) returns, and leaves the piece, with its
  column, rotation index and type unchanged and the board untouched, at the anchor row
  whose cells are exactly the cells that \<^verbatim>\<open>get_ghost_position\<close> returns on the state
  before the drop.
\<close>

theorem hard_drop_lands_on_ghost:
  assumes "wf_grid (board g)" and "current_piece g = Some p"
    and "rotation_ok (rotation_index p)"
  shows "\<exists>g' p' k cs.
            hard_drop_loop g 0 = Inr (g', k) \<and> 0 \<le> k
          \<and> hard_drop now g = lock_piece now (g'\<lparr>score := score g' + k * 2\<rparr>)
          \<and> g' = g\<lparr>current_piece := Some p'\<rparr>
          \<and> row p' = row p + k \<and> col p' = col p
          \<and> rotation_index p' = rotation_index p \<and> piece_type p' = piece_type p
          \<and> get_cells p' = Inr cs \<and> get_ghost_position g = Inr cs"
proof -
  have "g\<lparr>current_piece := Some (p\<lparr>row := row p\<rparr>)\<rparr> = g"
    using assms(2) by simp
  with descent_from [OF assms(1,3), of "row p" 0]
  have "\<exists>k\<ge>0. ghost_loop (board g) p (row p) = Inr (row p + k)
      \<and> hard_drop_loop g 0 = Inr (g\<lparr>current_piece := Some (p\<lparr>row := row p + k\<rparr>)\<rparr>, k)"
    by simp
  then obtain k where k: "0 \<le> k" "ghost_loop (board g) p (row p) = Inr (row p + k)"
    "hard_drop_loop g 0 = Inr (g\<lparr>current_piece := Some (p\<lparr>row := row p + k\<rparr>)\<rparr>, k)"
    by blast
  let ?p = "p\<lparr>row := row p + k\<rparr>"
  let ?cs = "cells_at (piece_type p) (rotation_index p) (row p + k) (col p)"
  have "get_cells ?p = Inr ?cs"
    using get_cells_ok [of ?p] assms(3) by simp
  moreover have "get_ghost_position g = Inr ?cs"
    using k(2) assms(2) get_cells_at_ok [OF assms(3)]
    by (simp add: get_ghost_position_def)
  moreover have "hard_drop now g =
      lock_piece now ((g\<lparr>current_piece := Some ?p\<rparr>)
        \<lparr>score := score (g\<lparr>current_piece := Some ?p\<rparr>) + k * 2\<rparr>)"
    using k(3) assms(2) by (simp add: hard_drop_def)
  ultimately show ?thesis
    using k(1,3) by (intro exI [of _ "g\<lparr>current_piece := Some ?p\<rparr>"] exI [of _ ?p]
        exI [of _ k] exI [of _ ?cs]) simp
qed

text \<open>An I piece two rows above the floor of the empty board.\<close>

definition low_piece :: piece where
  "low_piece = \<lparr>piece_type = Tet_I, rotation_index = 0, row = 17, col = 3\<rparr>"

definition low_game :: game where
  "low_game = fresh_game\<lparr>current_piece := Some low_piece\<rparr>"

theorem hard_drop_lands_on_ghost_witness:
  "wf_grid (board low_game) \<and> current_piece low_game = Some low_piece
   \<and> rotation_ok (rotation_index low_piece)
   \<and> get_ghost_position low_game = Inr [(19, 3), (19, 4), (19, 5), (19, 6)]
   \<and> (\<exists>g' p' k. hard_drop_loop low_game 0 = Inr (g', k)
          \<and> current_piece g' = Some p' \<and> col p' = 3 \<and> rotation_index p' = 0
          \<and> get_cells p' = Inr [(19, 3), (19, 4), (19, 5), (19, 6)])"
proof -
  have wf: "wf_grid (board low_game)" and cur: "current_piece low_game = Some low_piece"
    and rot: "rotation_ok (rotation_index low_piece)"
    by (simp_all add: low_game_def low_piece_def fresh_game_def wf_grid_Board_init
        rotation_ok_def)
  have b: "board low_game = Board_init" and t: "piece_type low_piece = Tet_I"
    and r: "rotation_index low_piece = 0" and c: "col low_piece = 3" "row low_piece = 17"
    by (simp_all add: low_game_def low_piece_def fresh_game_def)
  have loop: "ghost_loop Board_init low_piece 17 = Inr 19"
    using wf rot unfolding b
    by (simp add: ghost_loop_wf t r c position_ok_def cells_at_def Board_init_nth)
  have ghost: "get_ghost_position low_game = Inr [(19, 3), (19, 4), (19, 5), (19, 6)]"
    using get_cells_at_ok [OF rot, of low_piece 19 3]
    by (simp add: get_ghost_position_def cur b c r t loop cells_at_def)
  from hard_drop_lands_on_ghost [OF wf cur rot, of 0] ghost
  obtain g' p' k where "hard_drop_loop low_game 0 = Inr (g', k)"
    "g' = low_game\<lparr>current_piece := Some p'\<rparr>" "col p' = col low_piece"
    "rotation_index p' = rotation_index low_piece"
    "get_cells p' = Inr [(19, 3), (19, 4), (19, 5), (19, 6)]"
    by auto
  then have "\<exists>g' p' k. hard_drop_loop low_game 0 = Inr (g', k)
          \<and> current_piece g' = Some p' \<and> col p' = 3 \<and> rotation_index p' = 0
          \<and> get_cells p' = Inr [(19, 3), (19, 4), (19, 5), (19, 6)]"
    by (intro exI [of _ g'] exI [of _ p'] exI [of _ k]) (simp add: low_piece_def)
  with wf cur rot ghost show ?thesis
    by simp
qed

subsection \<open>Game over\<close>

text \<open>Feeding a list of events to \<^verbatim>\<open>handle_input\<close>, one after the other.\<close>

fun handle_inputs :: "int \<Rightarrow> event list \<Rightarrow> game \<Rightarrow> error + game" where
  "handle_inputs now [] g = Inr g"
| "handle_inputs now (ev # evs) g =
     (case handle_input now ev g of Inl e \<Rightarrow> Inl e | Inr g' \<Rightarrow> handle_inputs now evs g')"

text \<open>
  C2: in every state with \<^verbatim>\<open>game_over\<close> set, \<^verbatim>\<open>update\<close> (the tick) returns the state
  unchanged, and so does \<^verbatim>\<open>handle_input\<close> for every event other than the keys R
  (reset) and Escape (quit): the three move keys, rotate, hard drop, pause, any other key
  and any event that is not a key press.
\<close>

theorem game_over_frozen:
  assumes "game_over g"
  shows "update now g = Inr g
    \<and> handle_input now (KEYDOWN K_LEFT) g = Inr g
    \<and> handle_input now (KEYDOWN K_RIGHT) g = Inr g
    \<and> handle_input now (KEYDOWN K_DOWN) g = Inr g
    \<and> (\<forall>ev. ev \<noteq> KEYDOWN K_r \<and> ev \<noteq> KEYDOWN K_ESCAPE \<longrightarrow> handle_input now ev g = Inr g)"
  using assms by (auto simp: update_def handle_input_def split: event.splits)

text \<open>
  \<open>fresh_game\<close> is what \<^verbatim>\<open>reset_game\<close> returns when the random supply is empty, and
  twelve hard drops in a row from there fill the spawn cells.
\<close>

lemma reset_game_fresh: "reset_game 0 fresh_game = Inr fresh_game"
  by code_simp

lemma twelve_drops_game_over:
  "case handle_inputs 1 (replicate 12 (KEYDOWN K_SPACE)) fresh_game of
     Inl e \<Rightarrow> False
   | Inr g \<Rightarrow> game_over g"
  by code_simp

theorem game_over_frozen_witness:
  "\<exists>g. handle_inputs 1 (replicate 12 (KEYDOWN K_SPACE)) fresh_game = Inr g
       \<and> game_over g
       \<and> update 600 g = Inr g
       \<and> handle_input 600 (KEYDOWN K_LEFT) g = Inr g
       \<and> handle_input 600 (KEYDOWN K_RIGHT) g = Inr g
       \<and> handle_input 600 (KEYDOWN K_DOWN) g = Inr g"
proof -
  from twelve_drops_game_over obtain g
    where g: "handle_inputs 1 (replicate 12 (KEYDOWN K_SPACE)) fresh_game = Inr g"
      and over: "game_over g"
    by (cases "handle_inputs 1 (replicate 12 (KEYDOWN K_SPACE)) fresh_game") simp_all
  from game_over_frozen [OF over, of 600] g over show ?thesis
    by (intro exI [of _ g]) simp
qed

subsection \<open>The 7-bag\<close>

lemma shuffle_loop_perm:
  "k < length xs \<Longrightarrow> mset (fst (shuffle_loop k xs rs)) = mset xs"
proof (induction k arbitrary: xs rs)
  case 0
  show ?case by simp
next
  case (Suc k)
  obtain j rs' where r: "randbelow (Suc (Suc k)) rs = (j, rs')"
    by (cases "randbelow (Suc (Suc k)) rs")
  then have "j < Suc k + 1"
    by (auto simp: randbelow_def split: list.splits)
  with Suc.prems have j: "j < length xs" by simp
  let ?ys = "xs[Suc k := xs ! j, j := xs ! Suc k]"
  have "mset ?ys = mset xs"
    using Suc.prems j by (simp add: mset_swap)
  moreover have "mset (fst (shuffle_loop k ?ys rs')) = mset ?ys"
    using Suc.prems by (intro Suc.IH) simp
  ultimately show ?case
    by (simp add: r)
qed

lemma shuffle_perm: "mset (fst (shuffle xs rs)) = mset xs"
proof (cases xs)
  case Nil
  then show ?thesis by (simp add: shuffle_def)
next
  case (Cons x xs')
  then show ?thesis
    unfolding shuffle_def by (intro shuffle_loop_perm) simp
qed

text \<open>\<open>n\<close> consecutive calls of \<^verbatim>\<open>get_next_piece_type\<close>, collecting the results.\<close>

fun next_types :: "nat \<Rightarrow> game \<Rightarrow> error + (tetromino list \<times> game)" where
  "next_types 0 g = Inr ([], g)"
| "next_types (Suc n) g =
     (case get_next_piece_type g of
        Inl e \<Rightarrow> Inl e
      | Inr (t, g1) \<Rightarrow>
          (case next_types n g1 of
             Inl e \<Rightarrow> Inl e
           | Inr (ts, g2) \<Rightarrow> Inr (t # ts, g2)))"

lemma get_next_piece_type_nonempty:
  "piece_bag g \<noteq> [] \<Longrightarrow>
     get_next_piece_type g = Inr (last (piece_bag g), g\<lparr>piece_bag := butlast (piece_bag g)\<rparr>)"
  by (simp add: get_next_piece_type_def pop_def)

lemma get_next_piece_type_refill:
  assumes "piece_bag g = []"
  shows "get_next_piece_type g =
     get_next_piece_type (g\<lparr>piece_bag := fst (shuffle TETROMINOES_keys (rng g)),
                            rng := snd (shuffle TETROMINOES_keys (rng g))\<rparr>)"
proof -
  obtain bag rs where sh: "shuffle TETROMINOES_keys (rng g) = (bag, rs)"
    by (cases "shuffle TETROMINOES_keys (rng g)")
  have "mset bag = mset TETROMINOES_keys"
    using shuffle_perm [of TETROMINOES_keys "rng g"] by (simp add: sh)
  then have "bag \<noteq> []"
    by (auto simp: TETROMINOES_keys_def)
  then show ?thesis
    using assms by (simp add: get_next_piece_type_def sh)
qed

lemma next_types_drain:
  "piece_bag g = bag \<Longrightarrow>
     next_types (length bag) g = Inr (rev bag, g\<lparr>piece_bag := []\<rparr>)"
proof (induction bag arbitrary: g rule: rev_induct)
  case Nil
  then have "g\<lparr>piece_bag := []\<rparr> = g" by simp
  then show ?case by simp
next
  case (snoc x bag)
  let ?g = "g\<lparr>piece_bag := bag\<rparr>"
  from snoc.prems have "get_next_piece_type g = Inr (x, ?g)"
    by (simp add: get_next_piece_type_nonempty)
  moreover have "next_types (length bag) ?g = Inr (rev bag, ?g\<lparr>piece_bag := []\<rparr>)"
    by (rule snoc.IH) simp
  ultimately show ?case by simp
qed

lemma next_types_bag:
  assumes "piece_bag g = []"
  shows "\<exists>ts g'. next_types 7 g = Inr (ts, g') \<and> mset ts = mset TETROMINOES_keys
           \<and> piece_bag g' = []"
proof -
  let ?bag = "fst (shuffle TETROMINOES_keys (rng g))"
  let ?g = "g\<lparr>piece_bag := ?bag, rng := snd (shuffle TETROMINOES_keys (rng g))\<rparr>"
  have perm: "mset ?bag = mset TETROMINOES_keys"
    by (rule shuffle_perm)
  then have "size (mset ?bag) = size (mset TETROMINOES_keys)" by simp
  then have len: "length ?bag = 7"
    by (simp add: TETROMINOES_keys_def)
  have "next_types (length ?bag) ?g = Inr (rev ?bag, ?g\<lparr>piece_bag := []\<rparr>)"
    by (rule next_types_drain) simp
  then have drained: "next_types 7 ?g = Inr (rev ?bag, ?g\<lparr>piece_bag := []\<rparr>)"
    by (simp only: len)
  have "next_types 7 g = next_types 7 ?g"
    using get_next_piece_type_refill [OF assms]
    by (simp add: numeral_eq_Suc)
  with drained perm show ?thesis
    by simp
qed


lemma next_types_add:
  "next_types (a + b) g =
     (case next_types a g of
        Inl e \<Rightarrow> Inl e
      | Inr (ts, g1) \<Rightarrow>
          (case next_types b g1 of
             Inl e \<Rightarrow> Inl e
           | Inr (us, g2) \<Rightarrow> Inr (ts @ us, g2)))"
  by (induction a arbitrary: g) (auto split: sum.splits)

lemma next_types_chunks:
  assumes "piece_bag g = []"
  shows "\<exists>ts g'. next_types (7 * m) g = Inr (ts, g') \<and> length ts = 7 * m
           \<and> piece_bag g' = []
           \<and> (\<forall>k<m. mset (take 7 (drop (7 * k) ts)) = mset TETROMINOES_keys)"
  using assms
proof (induction m arbitrary: g)
  case 0
  then show ?case by simp
next
  case (Suc m)
  from next_types_bag [OF Suc.prems] obtain ts1 g1
    where first: "next_types 7 g = Inr (ts1, g1)" "mset ts1 = mset TETROMINOES_keys"
      "piece_bag g1 = []"
    by blast
  from first(2) have "size (mset ts1) = size (mset TETROMINOES_keys)" by simp
  then have len1: "length ts1 = 7"
    by (simp add: TETROMINOES_keys_def)
  from Suc.IH [OF first(3)] obtain ts2 g2
    where rest: "next_types (7 * m) g1 = Inr (ts2, g2)" "length ts2 = 7 * m"
      "piece_bag g2 = []"
      "\<forall>k<m. mset (take 7 (drop (7 * k) ts2)) = mset TETROMINOES_keys"
    by blast
  have "next_types (7 * Suc m) g = Inr (ts1 @ ts2, g2)"
    using next_types_add [of 7 "7 * m" g] first(1) rest(1) by simp
  moreover have "mset (take 7 (drop (7 * k) (ts1 @ ts2))) = mset TETROMINOES_keys"
    if "k < Suc m" for k
  proof (cases k)
    case 0
    with first(2) len1 show ?thesis by simp
  next
    case (Suc k')
    with that rest(4) len1 show ?thesis by simp
  qed
  ultimately show ?case
    using len1 rest(2,3) by (intro exI [of _ "ts1 @ ts2"] exI [of _ g2]) simp
qed

text \<open>
  C7: starting at a bag refill (an empty bag), every run of \<open>7 m\<close> calls of
  \<^verbatim>\<open>get_next_piece_type\<close> returns, and each of its \<open>m\<close> consecutive windows of 7
  results holds the seven tetromino types, none of them twice; the bag is empty again
  at the end, so the next window is aligned to a refill as well.
\<close>

theorem seven_bag:
  assumes "piece_bag g = []"
  shows "\<exists>ts g'. next_types (7 * m) g = Inr (ts, g') \<and> length ts = 7 * m
           \<and> piece_bag g' = []
           \<and> (\<forall>k<m. distinct (take 7 (drop (7 * k) ts))
                 \<and> set (take 7 (drop (7 * k) ts))
                     = {Tet_I, Tet_O, Tet_T, Tet_S, Tet_Z, Tet_J, Tet_L})"
proof -
  from next_types_chunks [OF assms, of m] obtain ts g'
    where run: "next_types (7 * m) g = Inr (ts, g')" "length ts = 7 * m" "piece_bag g' = []"
      and perm: "\<forall>k<m. mset (take 7 (drop (7 * k) ts)) = mset TETROMINOES_keys"
    by blast
  have "distinct (take 7 (drop (7 * k) ts))
      \<and> set (take 7 (drop (7 * k) ts)) = {Tet_I, Tet_O, Tet_T, Tet_S, Tet_Z, Tet_J, Tet_L}"
    if "k < m" for k
  proof -
    from perm that have eq: "mset (take 7 (drop (7 * k) ts)) = mset TETROMINOES_keys"
      by simp
    have "distinct TETROMINOES_keys"
      by (simp add: TETROMINOES_keys_def)
    with mset_eq_imp_distinct_iff [OF eq] mset_eq_setD [OF eq] show ?thesis
      by (simp add: TETROMINOES_keys_def)
  qed
  with run show ?thesis
    by (intro exI [of _ ts] exI [of _ g']) simp
qed

text \<open>A state at a bag boundary, with a supply of draws for two shuffles.\<close>

definition empty_bag_game :: game where
  "empty_bag_game = fresh_game\<lparr>piece_bag := [], rng := [3, 1, 4, 1, 5, 9, 2, 6, 5, 3, 5, 8]\<rparr>"

theorem seven_bag_witness:
  "piece_bag empty_bag_game = []
   \<and> (\<exists>g'. next_types 14 empty_bag_game =
              Inr ([Tet_S, Tet_O, Tet_Z, Tet_J, Tet_T, Tet_L, Tet_I,
                    Tet_T, Tet_I, Tet_J, Tet_S, Tet_L, Tet_Z, Tet_O], g')
          \<and> piece_bag g' = [])"
proof -
  have bag: "piece_bag empty_bag_game = []"
    by (simp add: empty_bag_game_def)
  have run: "case next_types 14 empty_bag_game of
      Inl e \<Rightarrow> False
    | Inr (ts, g') \<Rightarrow>
        ts = [Tet_S, Tet_O, Tet_Z, Tet_J, Tet_T, Tet_L, Tet_I,
              Tet_T, Tet_I, Tet_J, Tet_S, Tet_L, Tet_Z, Tet_O]"
    by code_simp
  from seven_bag [OF bag, of 2] obtain ts g'
    where "next_types 14 empty_bag_game = Inr (ts, g')" "piece_bag g' = []"
    by auto
  with run bag show ?thesis
    by simp
qed

subsection \<open>Locking and scoring\<close>

text \<open>What every piece of a running game satisfies: rotation indices in range.\<close>

definition piece_ok :: "piece option \<Rightarrow> bool" where
  "piece_ok po \<longleftrightarrow> (case po of None \<Rightarrow> True | Some p \<Rightarrow> rotation_ok (rotation_index p))"

lemma get_next_piece_type_total:
  "\<exists>t bag rs. get_next_piece_type g = Inr (t, g\<lparr>piece_bag := bag, rng := rs\<rparr>)"
proof (cases "piece_bag g = []")
  case False
  then have "get_next_piece_type g =
      Inr (last (piece_bag g), g\<lparr>piece_bag := butlast (piece_bag g), rng := rng g\<rparr>)"
    by (simp add: get_next_piece_type_nonempty)
  then show ?thesis by blast
next
  case True
  let ?g = "g\<lparr>piece_bag := fst (shuffle TETROMINOES_keys (rng g)),
               rng := snd (shuffle TETROMINOES_keys (rng g))\<rparr>"
  have "mset (piece_bag ?g) = mset TETROMINOES_keys"
    by (simp add: shuffle_perm)
  then have "piece_bag ?g \<noteq> []"
    by (auto simp: TETROMINOES_keys_def)
  then have "get_next_piece_type ?g =
      Inr (last (piece_bag ?g), ?g\<lparr>piece_bag := butlast (piece_bag ?g)\<rparr>)"
    by (rule get_next_piece_type_nonempty)
  with get_next_piece_type_refill [OF True] have "get_next_piece_type g =
      Inr (last (piece_bag ?g),
           g\<lparr>piece_bag := butlast (piece_bag ?g), rng := snd (shuffle TETROMINOES_keys (rng g))\<rparr>)"
    by simp
  then show ?thesis by blast
qed

lemma rotation_ok_Piece: "rotation_ok (rotation_index (Piece t))"
  by (simp add: Piece_def rotation_ok_def)

lemma spawn_piece_total:
  assumes "wf_grid (board g)" and "piece_ok (next_piece g)"
  shows "\<exists>ok g'. spawn_piece now g = Inr (ok, g') \<and> board g' = board g
           \<and> score g' = score g \<and> level g' = level g \<and> lines_cleared g' = lines_cleared g
           \<and> fall_speed g' = fall_speed g
           \<and> piece_ok (current_piece g') \<and> piece_ok (next_piece g')"
proof -
  obtain g1 where g1: "ensure_next_piece g = Inr g1" "board g1 = board g" "score g1 = score g"
    "level g1 = level g" "lines_cleared g1 = lines_cleared g" "fall_speed g1 = fall_speed g"
    "\<exists>p. next_piece g1 = Some p \<and> rotation_ok (rotation_index p)"
  proof (cases "next_piece g")
    case None
    from get_next_piece_type_total [of g] obtain t bag rs
      where "get_next_piece_type g = Inr (t, g\<lparr>piece_bag := bag, rng := rs\<rparr>)"
      by blast
    with None that [of "g\<lparr>piece_bag := bag, rng := rs, next_piece := Some (Piece t)\<rparr>"]
    show ?thesis
      by (simp add: ensure_next_piece_def rotation_ok_Piece)
  next
    case (Some p)
    with assms(2) that [of g] show ?thesis
      by (simp add: ensure_next_piece_def piece_ok_def)
  qed
  from g1(7) obtain p where p: "next_piece g1 = Some p" "rotation_ok (rotation_index p)"
    by blast
  let ?g2 = "g1\<lparr>current_piece := Some p\<rparr>"
  from get_next_piece_type_total [of ?g2] obtain t bag rs
    where nx: "get_next_piece_type ?g2 = Inr (t, ?g2\<lparr>piece_bag := bag, rng := rs\<rparr>)"
    by blast
  let ?g4 = "?g2\<lparr>piece_bag := bag, rng := rs, next_piece := Some (Piece t)\<rparr>"
  have wf4: "wf_grid (board g1)"
    using assms(1) g1(2) by simp
  have "spawn_piece now g =
      (if \<not> position_ok (board ?g4) (cells_at (piece_type p) (rotation_index p) (row p) (col p))
       then Inr (False, ?g4\<lparr>game_over := True\<rparr>)
       else Inr (True, ?g4\<lparr>last_fall_time := now\<rparr>))"
    by (simp add: spawn_piece_def g1(1) nx p(1) get_cells_ok [OF p(2)]
        is_valid_position_wf [OF wf4] Let_def)
  then show ?thesis
    using g1(2-6) p by (auto simp: piece_ok_def rotation_ok_Piece)
qed


text \<open>
  C1 as the code has it: a lock that clears \<open>n \<ge> 1\<close> lines adds
  \<open>scores_get n\<close> times the level that the game had before this lock; the line total
  grows by \<open>n\<close>, and only then is the level recomputed from the new total. A lock that
  itself reaches the next level is therefore rewarded at the old level.
\<close>

theorem lock_piece_score:
  assumes "wf_grid (board g)" and "current_piece g = Some p"
    and "rotation_ok (rotation_index p)" and "piece_ok (next_piece g)"
  shows "\<exists>b1 b2 n g'.
            Board_lock_piece (board g) p = Inr b1 \<and> clear_lines b1 = Inr (b2, n)
          \<and> lock_piece now g = Inr g' \<and> board g' = b2 \<and> 0 \<le> n
          \<and> (1 \<le> n \<longrightarrow>
                score g' = score g + scores_get n * level g
              \<and> lines_cleared g' = lines_cleared g + n
              \<and> level g' = (lines_cleared g + n) div 10 + 1)
          \<and> (n = 0 \<longrightarrow>
                score g' = score g \<and> lines_cleared g' = lines_cleared g \<and> level g' = level g)"
proof -
  from Board_lock_piece_wf [OF assms(1,3)] obtain b1
    where b1: "Board_lock_piece (board g) p = Inr b1" "wf_grid b1"
    by blast
  let ?n = "int (length (filter complete b1))"
  let ?b2 = "collapsed b1"
  note cl = clear_lines_wf [OF b1(2)]
  let ?g1 = "g\<lparr>board := ?b2\<rparr>"
  let ?g5 = "if ?n > 0 then
      ?g1\<lparr>lines_cleared := lines_cleared g + ?n,
           score := score g + scores_get ?n * level g,
           level := (lines_cleared g + ?n) div 10 + 1,
           fall_speed := max 100 (FALL_SPEED - ((lines_cleared g + ?n) div 10 + 1 - 1) * 50)\<rparr>
    else ?g1"
  have lock: "lock_piece now g =
      (case spawn_piece now ?g5 of Inl e \<Rightarrow> Inl e | Inr (ok, g6) \<Rightarrow> Inr g6)"
    by (simp add: lock_piece_def assms(2) b1(1) cl(1) Let_def calculate_score_def)
  have "wf_grid (board ?g5)" and "piece_ok (next_piece ?g5)"
    using cl(2) assms(4) by simp_all
  from spawn_piece_total [OF this, of now] obtain ok g'
    where sp: "spawn_piece now ?g5 = Inr (ok, g')" "board g' = board ?g5"
      "score g' = score ?g5" "level g' = level ?g5" "lines_cleared g' = lines_cleared ?g5"
    by blast
  from lock sp(1) have "lock_piece now g = Inr g'"
    by simp
  moreover have "board g' = ?b2"
    using sp(2) by simp
  moreover have "score g' = score g + scores_get ?n * level g
      \<and> lines_cleared g' = lines_cleared g + ?n
      \<and> level g' = (lines_cleared g + ?n) div 10 + 1" if "1 \<le> ?n"
  proof -
    from that have "filter complete b1 \<noteq> []" by auto
    with sp(3-5) show ?thesis by simp
  qed
  moreover have "score g' = score g \<and> lines_cleared g' = lines_cleared g \<and> level g' = level g"
    if "?n = 0"
  proof -
    from that have "filter complete b1 = []" by simp
    with sp(3-5) show ?thesis by simp
  qed
  ultimately show ?thesis
    using b1(1) cl(1)
    by (intro exI [of _ b1] exI [of _ ?b2] exI [of _ ?n] exI [of _ g']) simp
qed

text \<open>
  Nine lines cleared so far, level 1, six cells of the bottom row filled and an I piece
  lying in the four others: locking it clears the tenth line.
\<close>

definition level_up_game :: game where
  "level_up_game = fresh_game
     \<lparr>board := Board_init[19 := replicate 6 (Some Tet_O) @ replicate 4 None],
      current_piece := Some \<lparr>piece_type = Tet_I, rotation_index = 0, row = 19, col = 6\<rparr>,
      lines_cleared := 9\<rparr>"

lemma level_up_game_run:
  "map_sum id score (lock_piece 0 level_up_game) = Inr 100"
  "map_sum id level (lock_piece 0 level_up_game) = Inr 2"
  "map_sum id lines_cleared (lock_piece 0 level_up_game) = Inr 10"
  by code_simp+

theorem lock_piece_score_witness:
  "wf_grid (board level_up_game)
   \<and> current_piece level_up_game
       = Some \<lparr>piece_type = Tet_I, rotation_index = 0, row = 19, col = 6\<rparr>
   \<and> rotation_ok 0 \<and> piece_ok (next_piece level_up_game)
   \<and> score level_up_game = 0 \<and> level level_up_game = 1 \<and> lines_cleared level_up_game = 9
   \<and> (\<exists>g'. lock_piece 0 level_up_game = Inr g'
          \<and> score g' = 0 + scores_get 1 * 1 \<and> lines_cleared g' = 10 \<and> level g' = 2)"
proof -
  let ?p = "\<lparr>piece_type = Tet_I, rotation_index = 0, row = 19, col = 6\<rparr>"
  have wf: "wf_grid (board level_up_game)"
    by code_simp
  have cur: "current_piece level_up_game = Some ?p"
    and nxt: "piece_ok (next_piece level_up_game)"
    and before: "score level_up_game = 0" "level level_up_game = 1"
      "lines_cleared level_up_game = 9"
    by (simp_all add: level_up_game_def fresh_game_def piece_ok_def rotation_ok_Piece)
  have rot: "rotation_ok (rotation_index ?p)" "rotation_ok 0"
    by (simp_all add: rotation_ok_def)
  from lock_piece_score [OF wf cur rot(1) nxt, of 0] obtain n g'
    where g': "lock_piece 0 level_up_game = Inr g'" and n: "0 \<le> n"
      and pos: "1 \<le> n \<longrightarrow>
          score g' = score level_up_game + scores_get n * level level_up_game
        \<and> lines_cleared g' = lines_cleared level_up_game + n
        \<and> level g' = (lines_cleared level_up_game + n) div 10 + 1"
      and zero: "n = 0 \<longrightarrow> lines_cleared g' = lines_cleared level_up_game"
    by auto
  from level_up_game_run(3) g' have ten: "lines_cleared g' = 10"
    by simp
  with zero before(3) n have "1 \<le> n"
    by (cases "n = 0") simp_all
  with pos ten before have "n = 1" and "score g' = 0 + scores_get 1 * 1" and "level g' = 2"
    by auto
  with g' ten wf cur rot(2) nxt before show ?thesis
    by simp
qed

text \<open>
  The same lock against the claim as stated: the game is at level 2 afterwards, and the
  score has grown by 100, not by \<open>scores_get 1 * 2 = 200\<close>.
\<close>

theorem lock_piece_level_counterexample:
  "score level_up_game = 0 \<and> level level_up_game = 1 \<and> lines_cleared level_up_game = 9
   \<and> map_sum id lines_cleared (lock_piece 0 level_up_game) = Inr 10
   \<and> map_sum id level (lock_piece 0 level_up_game) = Inr 2
   \<and> map_sum id score (lock_piece 0 level_up_game) = Inr 100
   \<and> (100 :: int) - score level_up_game \<noteq> scores_get 1 * 2"
  by code_simp

section \<open>The hypotheses hold in every state of a running game\<close>

text \<open>
  The theorems above assume a board of 20 rows of 10 cells and rotation indices in
  \<open>{0, 1, 2, 3}\<close>. Both hold after \<^verbatim>\<open>reset_game\<close> and are kept by every command and
  every tick, none of which raises an exception.
\<close>

definition wf_game :: "game \<Rightarrow> bool" where
  "wf_game g \<longleftrightarrow>
     wf_grid (board g) \<and> piece_ok (current_piece g) \<and> piece_ok (next_piece g)"

lemma spawn_piece_wf_game:
  assumes "wf_grid (board g)" and "piece_ok (next_piece g)"
  shows "\<exists>ok g'. spawn_piece now g = Inr (ok, g') \<and> wf_game g'"
  using spawn_piece_total [OF assms, of now] assms(1)
  by (auto simp: wf_game_def)

lemma reset_game_wf_game: "\<exists>g'. reset_game now g = Inr g' \<and> wf_game g'"
proof -
  let ?g = "\<lparr>board = Board_init, current_piece = None, next_piece = None,
          score = 0, level = 1, lines_cleared = 0, game_over = False, paused = False,
          last_fall_time = now, fall_speed = FALL_SPEED, piece_bag = [], rng = rng g\<rparr>"
  have "wf_grid (board ?g)" "piece_ok (next_piece ?g)"
    by (simp_all add: wf_grid_Board_init piece_ok_def)
  from spawn_piece_wf_game [OF this, of now] show ?thesis
    by (auto simp: reset_game_def)
qed

lemma move_piece_wf_game:
  assumes "wf_game g"
  shows "\<exists>ok g'. move_piece d_row d_col g = Inr (ok, g') \<and> wf_game g'"
proof (cases "current_piece g")
  case None
  with assms show ?thesis
    by (auto simp: move_piece_def)
next
  case (Some p)
  with assms have "wf_grid (board g)" "rotation_ok (rotation_index p)"
    by (simp_all add: wf_game_def piece_ok_def)
  from move_piece_wf [OF this(1) Some this(2), of d_row d_col] assms this(2)
  show ?thesis
    by (auto simp: wf_game_def piece_ok_def)
qed

lemma rotate_piece_wf_game:
  assumes "wf_game g"
  shows "\<exists>ok g'. rotate_piece clockwise g = Inr (ok, g') \<and> wf_game g'"
proof (cases "current_piece g")
  case None
  with assms show ?thesis
    by (auto simp: rotate_piece_def)
next
  case (Some p)
  define new_rotation where
    "new_rotation = (if clockwise then rotate_cw p else rotate_ccw p)"
  have ok: "rotation_ok new_rotation"
    by (simp add: new_rotation_def rotate_cw_def rotate_ccw_def rotation_ok_mod)
  from assms have wf: "wf_grid (board g)"
    by (simp add: wf_game_def)
  have "rotate_piece clockwise g =
      (if position_ok (board g) (cells_at (piece_type p) new_rotation (row p) (col p))
       then Inr (True, g\<lparr>current_piece := Some (p\<lparr>rotation_index := new_rotation\<rparr>)\<rparr>)
       else wall_kick g p new_rotation [1, - 1, 2, - 2])"
    unfolding rotate_piece_def Some option.case Let_def new_rotation_def [symmetric]
      valid_at [OF wf ok]
    by simp
  then show ?thesis
    unfolding wall_kick_wf [OF wf ok]
    using assms ok by (auto simp: wf_game_def piece_ok_def split: option.splits)
qed

lemma lock_piece_wf_game:
  assumes "wf_game g"
  shows "\<exists>g'. lock_piece now g = Inr g' \<and> wf_game g'"
proof (cases "current_piece g")
  case None
  with assms show ?thesis
    by (simp add: lock_piece_def)
next
  case (Some p)
  with assms have wf: "wf_grid (board g)" and rot: "rotation_ok (rotation_index p)"
    and nxt: "piece_ok (next_piece g)"
    by (simp_all add: wf_game_def piece_ok_def)
  from Board_lock_piece_wf [OF wf rot] obtain b1
    where b1: "Board_lock_piece (board g) p = Inr b1" "wf_grid b1"
    by blast
  note cl = clear_lines_wf [OF b1(2)]
  obtain g5 where lock: "lock_piece now g =
      (case spawn_piece now g5 of Inl e \<Rightarrow> Inl e | Inr (ok, g6) \<Rightarrow> Inr g6)"
    and g5: "board g5 = collapsed b1" "next_piece g5 = next_piece g"
    by (simp add: lock_piece_def Some b1(1) cl(1) Let_def)
  from g5 cl(2) nxt have "wf_grid (board g5)" "piece_ok (next_piece g5)"
    by simp_all
  from spawn_piece_wf_game [OF this, of now] lock show ?thesis
    by auto
qed

lemma hard_drop_wf_game:
  assumes "wf_game g"
  shows "\<exists>g'. hard_drop now g = Inr g' \<and> wf_game g'"
proof (cases "current_piece g")
  case None
  with assms show ?thesis
    by (simp add: hard_drop_def)
next
  case (Some p)
  with assms have wf: "wf_grid (board g)" and rot: "rotation_ok (rotation_index p)"
    by (simp_all add: wf_game_def piece_ok_def)
  have "g\<lparr>current_piece := Some (p\<lparr>row := row p\<rparr>)\<rparr> = g"
    using Some by simp
  with descent_from [OF wf rot, of "row p" 0] obtain k
    where "hard_drop_loop g 0 = Inr (g\<lparr>current_piece := Some (p\<lparr>row := row p + k\<rparr>)\<rparr>, k)"
    by auto
  then have "hard_drop now g =
      lock_piece now (g\<lparr>current_piece := Some (p\<lparr>row := row p + k\<rparr>), score := score g + k * 2\<rparr>)"
    by (simp add: hard_drop_def Some)
  moreover have "wf_game (g\<lparr>current_piece := Some (p\<lparr>row := row p + k\<rparr>),
      score := score g + k * 2\<rparr>)"
    using assms rot by (simp add: wf_game_def piece_ok_def)
  ultimately show ?thesis
    using lock_piece_wf_game by simp
qed

lemma update_wf_game:
  assumes "wf_game g"
  shows "\<exists>g'. update now g = Inr g' \<and> wf_game g'"
proof -
  from move_piece_wf_game [OF assms, of 1 0] obtain moved g1
    where m: "move_piece 1 0 g = Inr (moved, g1)" "wf_game g1"
    by blast
  from lock_piece_wf_game [OF m(2), of now] obtain g2
    where l: "lock_piece now g1 = Inr g2" "wf_game g2"
    by blast
  have "wf_game (g1\<lparr>last_fall_time := now\<rparr>)" "wf_game (g2\<lparr>last_fall_time := now\<rparr>)"
    using m(2) l(2) by (simp_all add: wf_game_def)
  with assms m(1) l(1) show ?thesis
    by (simp add: update_def)
qed

lemma handle_input_wf_game:
  assumes "wf_game g" and "ev \<noteq> KEYDOWN K_ESCAPE"
  shows "\<exists>g'. handle_input now ev g = Inr g' \<and> wf_game g'"
proof (cases ev)
  case Other_event
  with assms show ?thesis
    by (simp add: handle_input_def)
next
  case (KEYDOWN k)
  have upd: "wf_game (g'\<lparr>score := s, last_fall_time := t\<rparr>)" "wf_game (g'\<lparr>paused := b\<rparr>)"
    if "wf_game g'" for g' s t b
    using that by (simp_all add: wf_game_def)
  from move_piece_wf_game [OF assms(1)] obtain ml gl mr gr md gd
    where mv: "move_piece 0 (- 1) g = Inr (ml, gl)" "wf_game gl"
      "move_piece 0 1 g = Inr (mr, gr)" "wf_game gr"
      "move_piece 1 0 g = Inr (md, gd)" "wf_game gd"
    by meson
  from rotate_piece_wf_game [OF assms(1), of True] obtain rr gu
    where ro: "rotate_piece True g = Inr (rr, gu)" "wf_game gu"
    by blast
  from KEYDOWN assms mv ro upd [OF mv(6)] upd(2) [OF assms(1)]
    reset_game_wf_game [of now g] hard_drop_wf_game [OF assms(1), of now]
  show ?thesis
    by (cases k) (auto simp: handle_input_def)
qed

end
